theory Spec2Isabelle
  imports Main "HOL-Library.AList" "HOL-Library.Sublist"
begin

section \<open>Python strings and regular-expression substitutions\<close>

text \<open>
  Python \<open>str\<close> values are modelled as \<open>string\<close> (lists of 8-bit characters). The
  character classes below are Python's on ASCII text: \<open>str.lower\<close> and \<open>str.upper\<close>
  change the 26 letters, \<open>\s\<close> and \<open>str.strip\<close> use the ten ASCII characters for which
  \<open>str.isspace\<close> holds, and \<open>\w\<close> is a letter, a digit or the underscore. A character
  above 127 is taken as caseless, not a space and not a word character.
\<close>

definition ascii_uppercase :: string where
  "ascii_uppercase = ''ABCDEFGHIJKLMNOPQRSTUVWXYZ''"

definition ascii_lowercase :: string where
  "ascii_lowercase = ''abcdefghijklmnopqrstuvwxyz''"

definition digits :: string where
  "digits = ''0123456789''"

definition lower_char :: "char \<Rightarrow> char" where
  "lower_char c =
     (case map_of (zip ascii_uppercase ascii_lowercase) c of Some d \<Rightarrow> d | None \<Rightarrow> c)"

definition upper_char :: "char \<Rightarrow> char" where
  "upper_char c =
     (case map_of (zip ascii_lowercase ascii_uppercase) c of Some d \<Rightarrow> d | None \<Rightarrow> c)"

definition lower :: "string \<Rightarrow> string" where
  "lower s = map lower_char s"

definition upper :: "string \<Rightarrow> string" where
  "upper s = map upper_char s"

definition is_space :: "char \<Rightarrow> bool" where
  "is_space c = (c \<in> set [CHR 0x09, CHR 0x0A, CHR 0x0B, CHR 0x0C, CHR 0x0D,
                             CHR 0x1C, CHR 0x1D, CHR 0x1E, CHR 0x1F, CHR '' ''])"

definition is_word :: "char \<Rightarrow> bool" where
  "is_word c = (c \<in> set ascii_lowercase \<or> c \<in> set ascii_uppercase \<or> c \<in> set digits
                 \<or> c = CHR ''_'')"

text \<open>\<open>s.strip()\<close>: leading and trailing whitespace removed.\<close>

definition strip :: "string \<Rightarrow> string" where
  "strip s = rev (dropWhile is_space (rev (dropWhile is_space s)))"

text \<open>\<open>s.split(d)\<close> for a one-character separator; the empty string gives one empty part.\<close>

fun split_on :: "char \<Rightarrow> string \<Rightarrow> string list" where
  "split_on d [] = [[]]"
| "split_on d (c # cs) =
     (if c = d then [] # split_on d cs
      else (case split_on d cs of [] \<Rightarrow> [[c]] | p # ps \<Rightarrow> (c # p) # ps))"

text \<open>
  \<open>\b\<close> at a position: exactly one of the character before it and the character after
  it is a word character; beyond either end of the string there is no word character.
  The flag \<open>pw\<close> says whether the character before the position is a word character.
\<close>

definition at_boundary :: "bool \<Rightarrow> string \<Rightarrow> bool" where
  "at_boundary pw s = (pw \<noteq> (case s of [] \<Rightarrow> False | c # _ \<Rightarrow> is_word c))"

text \<open>
  Whether the pattern \<open>\bw\b\<close> (when \<open>lb\<close>) or \<open>w\b\<close> (otherwise), for a literal
  non-empty \<open>w\<close>, matches at the start of \<open>s\<close>.
\<close>

definition match_here :: "bool \<Rightarrow> string \<Rightarrow> bool \<Rightarrow> string \<Rightarrow> bool" where
  "match_here lb w pw s =
     (w \<noteq> [] \<and> (if lb then at_boundary pw s else True) \<and> prefix w s
      \<and> at_boundary (is_word (last w)) (drop (length w) s))"

text \<open>
  \<open>re.sub\<close> of such a pattern by \<open>repl\<close>: the string is scanned from the left, a match
  is replaced and the scan goes on behind it, any other character is copied.
\<close>

function re_sub_lit :: "bool \<Rightarrow> string \<Rightarrow> string \<Rightarrow> bool \<Rightarrow> string \<Rightarrow> string" where
  "re_sub_lit lb w repl pw [] = []"
| "re_sub_lit lb w repl pw (c # cs) =
     (if match_here lb w pw (c # cs)
      then repl @ re_sub_lit lb w repl (is_word (last w)) (drop (length w - 1) cs)
      else c # re_sub_lit lb w repl (is_word c) cs)"
  by pat_completeness auto
termination
  by (relation "measure (\<lambda>(lb, w, repl, pw, s). length s)") auto

text \<open>\<open>re.sub(r"[class]+", repl, s)\<close>: every maximal run of characters of the class is replaced.\<close>

function re_sub_runs :: "(char \<Rightarrow> bool) \<Rightarrow> string \<Rightarrow> string \<Rightarrow> string" where
  "re_sub_runs P repl [] = []"
| "re_sub_runs P repl (c # cs) =
     (if P c then repl @ re_sub_runs P repl (dropWhile P cs)
      else c # re_sub_runs P repl cs)"
  by pat_completeness auto
termination
  by (relation "measure (\<lambda>(P, repl, s). length s)")
     (auto simp: length_dropWhile_le le_imp_less_Suc)

text \<open>\<open>re.sub(r"[class]", repl, s)\<close>: every character of the class is replaced.\<close>

definition re_sub_chars :: "(char \<Rightarrow> bool) \<Rightarrow> string \<Rightarrow> string \<Rightarrow> string" where
  "re_sub_chars P repl s = concat (map (\<lambda>c. if P c then repl else [c]) s)"


section \<open>merge_custom_channels.py\<close>

definition QUALITY_TAGS :: "string list" where
  "QUALITY_TAGS = [''hd'', ''uhd'', ''4k'', ''fhd'', ''sd'']"

definition PROVIDER_TAGS :: "string list" where
  "PROVIDER_TAGS = [''directv'', ''pluto'', ''plex'', ''freeview'', ''sky'', ''virgin'',
     ''tvguide'', ''tvinsider'', ''tv24'', ''streaming'', ''epgshare'']"

definition TIMESHIFT_TAGS :: "string list" where
  "TIMESHIFT_TAGS = [''+1'', ''+2'', ''timeshift'', ''east'', ''west'']"

text \<open>The class \<open>[\(\)\[\]\-_/&,+.']\<close> of the punctuation step.\<close>

definition is_punct :: "char \<Rightarrow> bool" where
  "is_punct c = (c \<in> set [CHR ''('', CHR '')'', CHR ''['', CHR '']'', CHR ''-'', CHR ''_'',
                             CHR ''/'', CHR ''&'', CHR '','', CHR ''+'', CHR ''.'', CHR 0x27])"

text \<open>
  \<open>normalize_name\<close> of merge_custom_channels.py (the loose normalizer): lower-case, each
  provider tag and then each quality tag replaced by a space where it stands as a whole
  word, punctuation replaced by spaces, whitespace collapsed and trimmed.
  \<open>TIMESHIFT_TAGS\<close> is not read by it.
\<close>

definition remove_tags :: "string list \<Rightarrow> string \<Rightarrow> string" where
  "remove_tags tags n = foldl (\<lambda>n t. re_sub_lit True t '' '' False n) n tags"

definition normalize_name :: "string \<Rightarrow> string" where
  "normalize_name nm =
     (if nm = [] then []
      else strip (re_sub_runs is_space '' ''
             (re_sub_chars is_punct '' ''
               (remove_tags QUALITY_TAGS (remove_tags PROVIDER_TAGS (lower nm))))))"

record candidate =
  site :: string
  xmltv_id :: string
  name :: string
  source :: string

record collision =
  key :: string
  kept_name :: string
  dropped_name :: string
  kept_source :: string
  dropped_source :: string
  kept_xmltv_id :: string
  dropped_xmltv_id :: string

text \<open>
  The three accumulators of \<open>merge_candidates\<close>. \<open>merged\<close> is a Python dict: an
  association list in insertion order, where storing under a key already present
  replaces the value in place (\<open>AList.update\<close>).
\<close>

record merge_state =
  merged :: "(string \<times> candidate) list"
  dupes :: "collision list"
  unmatched :: "candidate list"

definition custom_source :: string where
  "custom_source = ''custom.channels.xml''"

text \<open>The key of a candidate that has a usable name: its id if present, else its normalized name.\<close>

definition identity_key :: "candidate \<Rightarrow> string" where
  "identity_key c = (if xmltv_id c \<noteq> [] then xmltv_id c else normalize_name (name c))"

text \<open>
  The tie-break of \<open>merge_candidates\<close> between the stored candidate \<open>prev\<close> and the
  new candidate \<open>c\<close>: whether \<open>winner is c\<close> holds after the \<open>if\<close>/\<open>elif\<close>.
\<close>

definition c_wins :: "candidate \<Rightarrow> candidate \<Rightarrow> bool" where
  "c_wins prev c =
     (if xmltv_id prev = [] \<and> xmltv_id c \<noteq> [] then True
      else if source prev \<noteq> custom_source \<and> source c = custom_source then True
      else False)"

text \<open>
  One iteration of the loop of \<open>merge_candidates\<close>. \<open>kept\<close> is \<open>merged[key]\<close> as read
  after the assignment \<open>merged[key] = c\<close>.
\<close>

definition merge_step :: "merge_state \<Rightarrow> candidate \<Rightarrow> merge_state" where
  "merge_step st c =
     (let norm = normalize_name (name c) in
      if norm = [] then st\<lparr>unmatched := unmatched st @ [c]\<rparr>
      else
        let k = (if xmltv_id c \<noteq> [] then xmltv_id c else norm) in
        (case map_of (merged st) k of
           Some prev \<Rightarrow>
             let merged' = (if c_wins prev c then AList.update k c (merged st) else merged st);
                 kept = (if c_wins prev c then c else prev)
             in st\<lparr>merged := merged',
                    dupes := dupes st @
                      [\<lparr>key = k,
                        kept_name = name kept, dropped_name = name c,
                        kept_source = source kept, dropped_source = source c,
                        kept_xmltv_id = xmltv_id kept, dropped_xmltv_id = xmltv_id c\<rparr>]\<rparr>
         | None \<Rightarrow> st\<lparr>merged := AList.update k c (merged st)\<rparr>))"

definition merge_init :: merge_state where
  "merge_init = \<lparr>merged = [], dupes = [], unmatched = []\<rparr>"

definition merge_loop :: "candidate list \<Rightarrow> merge_state" where
  "merge_loop candidates = foldl merge_step merge_init candidates"

definition merge_candidates ::
  "candidate list \<Rightarrow> candidate list \<times> collision list \<times> candidate list" where
  "merge_candidates candidates =
     (let st = merge_loop candidates in (map snd (merged st), dupes st, unmatched st))"

section \<open>step2_enrich_with_preferred_channels.py\<close>

text \<open>
  \<open>normalize_name\<close> of step2_enrich_with_preferred_channels.py (the strict normalizer):
  trimmed and lower-cased, the whole word \<open>hd\<close> and the token \<open>+1\<close> (when no word
  character follows it) deleted, then every character outside \<open>[a-z0-9]\<close> deleted.
  Every cell is a string here, so the \<open>isinstance\<close> test always passes.
\<close>

definition is_lower_alnum :: "char \<Rightarrow> bool" where
  "is_lower_alnum c = (c \<in> set ascii_lowercase \<or> c \<in> set digits)"

definition normalize_name_step2 :: "string \<Rightarrow> string" where
  "normalize_name_step2 nm =
     re_sub_runs (\<lambda>c. \<not> is_lower_alnum c) []
       (re_sub_lit False ''+1'' [] False
         (re_sub_lit True ''hd'' [] False (lower (strip nm))))"

text \<open>
  The script raises \<open>ValueError\<close> in three places; the constructor tells them apart:
  the baseline frame has neither \<open>xmltv_id\<close> nor \<open>display_name\<close>, the preferred frame
  lacks \<open>id\<close> or \<open>name\<close>, and pandas refusing the truth value of a Series.
\<close>

datatype error = Baseline_columns_missing | Preferred_columns_missing | Series_truth_ambiguous

text \<open>
  A row of a pandas frame read with \<open>dtype=str, keep_default_na=False\<close>: a map from
  column names to string cells. \<open>row_get r k\<close> is \<open>r.get(k) or ""\<close>: the empty string
  for an absent column as for an empty cell.
\<close>

type_synonym row = "string \<rightharpoonup> string"

definition row_get :: "row \<Rightarrow> string \<Rightarrow> string" where
  "row_get r k = (case r k of None \<Rightarrow> [] | Some v \<Rightarrow> v)"

record data_frame =
  columns :: "string list"
  rows :: "row list"

type_synonym name_key = "string \<times> string option"

text \<open>\<open>country or None\<close>.\<close>

definition or_None :: "string \<Rightarrow> string option" where
  "or_None s = (if s = [] then None else Some s)"

text \<open>The names a preferred row is indexed under: its name, then the non-empty trimmed parts of \<open>alt_names\<close>.\<close>

definition row_names :: "row \<Rightarrow> string list" where
  "row_names r =
     (let name_main = row_get r ''name''; alt_names = row_get r ''alt_names'' in
      [name_main] @
      (if alt_names \<noteq> [] then filter (\<lambda>nm. nm \<noteq> []) (map strip (split_on CHR '';'' alt_names))
       else []))"

text \<open>The inner loop of \<open>build_preferred_lookup\<close> over the names of one row: the first row stored under a key stays.\<close>

definition add_name :: "row \<Rightarrow> string \<Rightarrow> (name_key \<rightharpoonup> row) \<Rightarrow> string \<Rightarrow> (name_key \<rightharpoonup> row)" where
  "add_name r country by_name_country nm =
     (let norm = normalize_name_step2 nm in
      if norm = [] then by_name_country
      else
        let k = (norm, or_None country) in
        if by_name_country k = None then by_name_country(k \<mapsto> r) else by_name_country)"

text \<open>One iteration of the loop of \<open>build_preferred_lookup\<close> over the preferred rows.\<close>

definition lookup_step ::
  "(string \<rightharpoonup> row) \<times> (name_key \<rightharpoonup> row) \<Rightarrow> row \<Rightarrow> (string \<rightharpoonup> row) \<times> (name_key \<rightharpoonup> row)" where
  "lookup_step st r =
     (let by_id = fst st; by_name_country = snd st;
          cid = strip (row_get r ''id'');
          by_id' = (if cid \<noteq> [] then (if by_id cid \<noteq> None then by_id else by_id(cid \<mapsto> r))
                    else by_id);
          country = upper (strip (row_get r ''country''))
      in (by_id', foldl (add_name r country) by_name_country (row_names r)))"

definition build_preferred_lookup ::
  "data_frame \<Rightarrow> error + ((string \<rightharpoonup> row) \<times> (name_key \<rightharpoonup> row))" where
  "build_preferred_lookup preferred_df =
     (if filter (\<lambda>c. c \<notin> set (columns preferred_df)) [''id'', ''name''] \<noteq> [] then Inl Preferred_columns_missing
      else Inr (foldl lookup_step (Map.empty, Map.empty) (rows preferred_df)))"

definition add_cols :: "string list" where
  "add_cols = [''preferred_flag'', ''pref_id'', ''pref_name'', ''pref_alt_names'',
     ''pref_network'', ''pref_owners'', ''pref_country'', ''pref_categories'', ''pref_is_nsfw'',
     ''pref_launched'', ''pref_closed'', ''pref_replaced_by'', ''pref_website'',
     ''filtered_out_by_category'']"

text \<open>\<open>baseline_df[col] = ""\<close> for every column of \<open>add_cols\<close> that the frame does not have.\<close>

definition ensure_cols :: "data_frame \<Rightarrow> data_frame" where
  "ensure_cols df =
     (let missing = filter (\<lambda>c. c \<notin> set (columns df)) add_cols in
      \<lparr>columns = columns df @ missing,
       rows = map (\<lambda>r. foldl (\<lambda>r c. r(c \<mapsto> [])) r missing) (rows df)\<rparr>)"

datatype tier = ById | ByName | NoMatch

text \<open>
  The two name keys of a baseline row: \<open>display_name\<close> (else \<open>name\<close>) normalized,
  paired with the row's upper-cased country (or \<open>None\<close>), and paired with \<open>None\<close>.
\<close>

definition norm_name :: "row \<Rightarrow> string" where
  "norm_name r =
     normalize_name_step2
       (if row_get r ''display_name'' \<noteq> [] then row_get r ''display_name''
        else row_get r ''name'')"

definition key_exact :: "row \<Rightarrow> name_key" where
  "key_exact r = (norm_name r, or_None (upper (strip (row_get r ''country''))))"

definition key_nocountry :: "row \<Rightarrow> name_key" where
  "key_nocountry r = (norm_name r, None)"

text \<open>
  The tiered lookup at the head of the row loop: the matched preferred row, if any, and
  which of the three counters the iteration increments.
\<close>

definition match_row ::
  "(string \<rightharpoonup> row) \<Rightarrow> (name_key \<rightharpoonup> row) \<Rightarrow> row \<Rightarrow> row option \<times> tier" where
  "match_row by_id by_name_country r =
     (let xid = strip (row_get r ''xmltv_id'') in
      if xid \<noteq> [] \<and> by_id xid \<noteq> None then (by_id xid, ById)
      else if by_name_country (key_exact r) \<noteq> None
      then (by_name_country (key_exact r), ByName)
      else if by_name_country (key_nocountry r) \<noteq> None
      then (by_name_country (key_nocountry r), ByName)
      else (None, NoMatch))"

text \<open>\<open>s.startswith("Y")\<close>.\<close>

definition startswith_Y :: "string \<Rightarrow> bool" where
  "startswith_Y s = prefix ''Y'' s"

text \<open>
  The cell writes of one iteration once the lookup is done: \<open>cur\<close> is the frame's row,
  \<open>m\<close> the result of the lookup, \<open>preferred_ids_set\<close> the set of ids of the preferred frame.
\<close>

definition fill_row :: "string set \<Rightarrow> row option \<Rightarrow> row \<Rightarrow> row" where
  "fill_row preferred_ids_set m cur =
     (case m of
        Some matched_row \<Rightarrow>
          (let cid = strip (row_get matched_row ''id'');
               prefered_col_value =
                 strip (if row_get matched_row ''Prefered'' \<noteq> [] then row_get matched_row ''Prefered''
                        else row_get matched_row ''preferred'')
           in cur(''pref_id'' \<mapsto> cid,
                  ''pref_name'' \<mapsto> row_get matched_row ''name'',
                  ''pref_alt_names'' \<mapsto> row_get matched_row ''alt_names'',
                  ''pref_network'' \<mapsto> row_get matched_row ''network'',
                  ''pref_owners'' \<mapsto> row_get matched_row ''owners'',
                  ''pref_country'' \<mapsto> upper (strip (row_get matched_row ''country'')),
                  ''pref_categories'' \<mapsto> row_get matched_row ''categories'',
                  ''pref_is_nsfw'' \<mapsto> row_get matched_row ''is_nsfw'',
                  ''pref_launched'' \<mapsto> row_get matched_row ''launched'',
                  ''pref_closed'' \<mapsto> row_get matched_row ''closed'',
                  ''pref_replaced_by'' \<mapsto> row_get matched_row ''replaced_by'',
                  ''pref_website'' \<mapsto> row_get matched_row ''website'',
                  ''preferred_flag'' \<mapsto>
                     (if prefered_col_value \<noteq> []
                      then (if startswith_Y (upper prefered_col_value) then ''Y'' else [])
                      else (if cid \<in> preferred_ids_set then ''Y'' else []))))
      | None \<Rightarrow> cur(''preferred_flag'' \<mapsto> row_get cur ''preferred_flag''))"

text \<open>The effective category list of a row: \<open>pref_categories\<close> of the frame if non-empty, else the row's own \<open>categories\<close>.\<close>

definition cat_list :: "string list \<Rightarrow> row \<Rightarrow> row \<Rightarrow> string list" where
  "cat_list cols r cur =
     (let cat_field =
            (if row_get cur ''pref_categories'' \<noteq> [] then row_get cur ''pref_categories''
             else if ''categories'' \<in> set cols then row_get r ''categories''
             else [])
      in map (\<lambda>c. lower (strip c)) (filter (\<lambda>c. strip c \<noteq> []) (split_on CHR '';'' cat_field)))"

text \<open>
  The category filter at the end of one iteration: whether the row is flagged. \<open>r\<close> is
  the row as \<open>iterrows\<close> delivered it, \<open>cur\<close> the frame's row after the writes above.
\<close>

definition filter_hits :: "string list \<Rightarrow> string set \<Rightarrow> row \<Rightarrow> row \<Rightarrow> bool" where
  "filter_hits cols exclude_categories r cur =
     (exclude_categories \<noteq> {} \<and> cat_list cols r cur \<noteq> []
      \<and> list_ex (\<lambda>c. c \<in> exclude_categories) (cat_list cols r cur)
      \<and> cur ''preferred_flag'' \<noteq> Some ''Y'')"

definition apply_filter :: "string list \<Rightarrow> string set \<Rightarrow> row \<Rightarrow> row \<Rightarrow> row" where
  "apply_filter cols exclude_categories r cur =
     (if filter_hits cols exclude_categories r cur
      then cur(''filtered_out_by_category'' \<mapsto> ''Y'') else cur)"

record counters =
  preferred_matches_id :: nat
  preferred_matches_name :: nat
  unmatched_rows :: nat
  filtered_by_category :: nat

definition count_row :: "tier \<Rightarrow> bool \<Rightarrow> counters \<Rightarrow> counters" where
  "count_row t hit n =
     (let n1 = (case t of
                  ById \<Rightarrow> n\<lparr>preferred_matches_id := preferred_matches_id n + 1\<rparr>
                | ByName \<Rightarrow> n\<lparr>preferred_matches_name := preferred_matches_name n + 1\<rparr>
                | NoMatch \<Rightarrow> n\<lparr>unmatched_rows := unmatched_rows n + 1\<rparr>)
      in if hit then n1\<lparr>filtered_by_category := filtered_by_category n1 + 1\<rparr> else n1)"

text \<open>One iteration of the row loop of \<open>enrich_baseline_with_preferred\<close>.\<close>

definition enrich_row ::
  "string list \<Rightarrow> (string \<rightharpoonup> row) \<Rightarrow> (name_key \<rightharpoonup> row) \<Rightarrow> string set \<Rightarrow> string set
   \<Rightarrow> row \<Rightarrow> row \<times> tier \<times> bool" where
  "enrich_row cols by_id by_name_country preferred_ids_set exclude_categories r =
     (let m = match_row by_id by_name_country r;
          cur = fill_row preferred_ids_set (fst m) r
      in (apply_filter cols exclude_categories r cur, snd m,
          filter_hits cols exclude_categories r cur))"

definition enrich_rows ::
  "string list \<Rightarrow> (string \<rightharpoonup> row) \<Rightarrow> (name_key \<rightharpoonup> row) \<Rightarrow> string set \<Rightarrow> string set
   \<Rightarrow> row list \<Rightarrow> row list \<times> counters" where
  "enrich_rows cols by_id by_name_country preferred_ids_set exclude_categories rs =
     foldl (\<lambda>acc r.
              let res = enrich_row cols by_id by_name_country preferred_ids_set exclude_categories r
              in (fst acc @ [fst res], count_row (fst (snd res)) (snd (snd res)) (snd acc)))
       ([], \<lparr>preferred_matches_id = 0, preferred_matches_name = 0, unmatched_rows = 0,
             filtered_by_category = 0\<rparr>) rs"

text \<open>
  The behaviour of the pandas library, which the script imports: \<open>bool(series)\<close>,
  which Python evaluates for the left operand of \<open>or\<close>, raises \<open>ValueError\<close> (the
  truth value of a Series is ambiguous) for a Series of any length.
\<close>

definition series_bool :: "string list \<Rightarrow> error + bool" where
  "series_bool col = Inl Series_truth_ambiguous"

text \<open>
  \<open>set(preferred_df.get("id") or [])\<close>: \<open>DataFrame.get\<close> gives the column as a Series
  when the frame has it and \<open>None\<close> otherwise.
\<close>

definition preferred_ids :: "data_frame \<Rightarrow> error + string set" where
  "preferred_ids preferred_df =
     (if ''id'' \<in> set (columns preferred_df)
      then (let col = map (\<lambda>r. row_get r ''id'') (rows preferred_df) in
            case series_bool col of
              Inl e \<Rightarrow> Inl e
            | Inr t \<Rightarrow> Inr (if t then set col else {}))
      else Inr {})"

definition enrich_baseline_with_preferred ::
  "data_frame \<Rightarrow> data_frame \<Rightarrow> string set \<Rightarrow> error + data_frame" where
  "enrich_baseline_with_preferred baseline_df preferred_df exclude_categories =
     (if ''xmltv_id'' \<notin> set (columns baseline_df) \<and> ''display_name'' \<notin> set (columns baseline_df)
      then Inl Baseline_columns_missing
      else
        let df = ensure_cols baseline_df in
        case build_preferred_lookup preferred_df of
          Inl e \<Rightarrow> Inl e
        | Inr idx \<Rightarrow>
            (case preferred_ids preferred_df of
               Inl e \<Rightarrow> Inl e
             | Inr preferred_ids_set \<Rightarrow>
                 Inr (df\<lparr>rows := fst (enrich_rows (columns df) (fst idx) (snd idx)
                                          preferred_ids_set exclude_categories (rows df))\<rparr>)))"


section \<open>Invariants used in the proofs\<close>

text \<open>
  The dict \<open>merged\<close> holds each key once, and every candidate stored in it is stored
  under its own identity key.
\<close>

definition keys_ok :: "merge_state \<Rightarrow> bool" where
  "keys_ok st =
     (distinct (map fst (merged st)) \<and> (\<forall>(k, c)\<in>set (merged st). k = identity_key c))"

text \<open>A tag made of word characters only, as all provider and quality tags are.\<close>

definition word_tag :: "string \<Rightarrow> bool" where
  "word_tag w = (w \<noteq> [] \<and> list_all is_word w)"

text \<open>
  The maximal runs of word characters of a string that start at a word boundary; with
  \<open>pw\<close> a run at the very start continues a word and is left out.
\<close>

fun wruns :: "bool \<Rightarrow> string \<Rightarrow> string list" where
  "wruns pw [] = []"
| "wruns pw (c # cs) =
     (if \<not> pw \<and> is_word c then [takeWhile is_word (c # cs)] else []) @ wruns (is_word c) cs"

text \<open>
  The whitespace of a collapsed string: every whitespace character is a blank, and no
  two of them are adjacent.
\<close>

fun ws_ok :: "string \<Rightarrow> bool" where
  "ws_ok [] = True"
| "ws_ok (c # cs) =
     ((if is_space c then c = CHR '' '' \<and> (case cs of [] \<Rightarrow> True | d # _ \<Rightarrow> \<not> is_space d) else True)
      \<and> ws_ok cs)"

text \<open>Every key of \<open>by_id\<close> is a non-empty, trimmed id.\<close>

definition ids_ok :: "(string \<rightharpoonup> row) \<Rightarrow> bool" where
  "ids_ok m = (\<forall>k r. m k = Some r \<longrightarrow> k \<noteq> [] \<and> strip k = k)"

text \<open>
  Every entry of \<open>by_name_country\<close> has a non-empty name component, and that component
  is the normalization of one of the names of the row stored there.
\<close>

definition names_ok :: "(name_key \<rightharpoonup> row) \<Rightarrow> bool" where
  "names_ok m =
     (\<forall>k r. m k = Some r \<longrightarrow>
        fst k \<noteq> [] \<and> (\<exists>nm\<in>set (row_names r). normalize_name_step2 nm = fst k))"


section \<open>The merge loop\<close>

lemma merge_loop_Nil: "merge_loop [] = merge_init"
  by (simp add: merge_loop_def)

lemma merge_loop_snoc: "merge_loop (cs @ [c]) = merge_step (merge_loop cs) c"
  by (simp add: merge_loop_def)

lemma merged_init: "map_of (merged merge_init) k = None"
  by (simp add: merge_init_def)

lemma unmatched_step:
  "unmatched (merge_step st c) =
     (if normalize_name (name c) = [] then unmatched st @ [c] else unmatched st)"
  by (simp add: merge_step_def Let_def split: option.splits)

text \<open>What one iteration does to the dict, read as a map.\<close>

lemma merged_step:
  "map_of (merged (merge_step st c)) k' =
     (if normalize_name (name c) = [] then map_of (merged st) k'
      else if k' = identity_key c
      then Some (case map_of (merged st) k' of None \<Rightarrow> c
                 | Some prev \<Rightarrow> if c_wins prev c then c else prev)
      else map_of (merged st) k')"
  by (auto simp add: merge_step_def Let_def identity_key_def update_conv' split: option.splits)

lemma unmatched_loop:
  "unmatched (merge_loop cs) = filter (\<lambda>c. normalize_name (name c) = []) cs"
  by (induction cs rule: rev_induct)
     (simp_all add: merge_loop_snoc merge_loop_Nil unmatched_step merge_init_def)

lemma merged_grows:
  "map_of (merged st) k \<noteq> None \<Longrightarrow> map_of (merged (merge_step st c)) k \<noteq> None"
  by (simp add: merged_step)

lemma filed_loop:
  "c \<in> set cs \<Longrightarrow> normalize_name (name c) \<noteq> [] \<Longrightarrow>
     map_of (merged (merge_loop cs)) (identity_key c) \<noteq> None"
proof (induction cs rule: rev_induct)
  case Nil
  then show ?case by simp
next
  case (snoc x xs)
  show ?case
  proof (cases "c = x")
    case True
    with snoc.prems show ?thesis by (simp add: merge_loop_snoc merged_step)
  next
    case False
    with snoc have "map_of (merged (merge_loop xs)) (identity_key c) \<noteq> None" by simp
    then show ?thesis unfolding merge_loop_snoc by (rule merged_grows)
  qed
qed

text \<open>Candidates of other groups, and candidates without a usable name, leave a key's entry alone.\<close>

lemma others_keep:
  "\<forall>c\<in>set ys. normalize_name (name c) = [] \<or> identity_key c \<noteq> k \<Longrightarrow>
     map_of (merged (foldl merge_step st ys)) k = map_of (merged st) k"
  by (induction ys arbitrary: st) (auto simp add: merged_step)

lemma set_update_subset: "set (AList.update k v al) \<subseteq> insert (k, v) (set al)"
  by (induction al) auto

lemma merged_step_cases:
  "merged (merge_step st c) = merged st
   \<or> merged (merge_step st c) = AList.update (identity_key c) c (merged st)"
  by (auto simp add: merge_step_def Let_def identity_key_def split: option.splits)

lemma keys_ok_update:
  assumes "distinct (map fst al)" "\<forall>(k, c)\<in>set al. k = identity_key c"
  shows "distinct (map fst (AList.update (identity_key c) c al))
         \<and> (\<forall>(k, c')\<in>set (AList.update (identity_key c) c al). k = identity_key c')"
  using assms set_update_subset [of "identity_key c" c al]
  by (auto simp add: distinct_update)

lemma keys_ok_step: "keys_ok st \<Longrightarrow> keys_ok (merge_step st c)"
  unfolding keys_ok_def
  using merged_step_cases [of st c] keys_ok_update [of "merged st" c]
  by auto

lemma keys_ok_init: "keys_ok merge_init"
  by (simp add: keys_ok_def merge_init_def)

lemma keys_ok_loop: "keys_ok (merge_loop cs)"
proof (induction cs rule: rev_induct)
  case Nil
  show ?case by (simp add: merge_loop_Nil keys_ok_init)
next
  case (snoc x xs)
  then show ?case by (simp add: merge_loop_snoc keys_ok_step)
qed

lemma winners_same_key:
  assumes "keys_ok st" "a \<in> snd ` set (merged st)" "b \<in> snd ` set (merged st)"
    "identity_key a = identity_key b"
  shows "a = b"
proof -
  from assms obtain ka kb where a: "(ka, a) \<in> set (merged st)" and b: "(kb, b) \<in> set (merged st)"
    by auto
  with assms(1) have "ka = identity_key a" "kb = identity_key b"
    by (auto simp add: keys_ok_def)
  with assms(4) have "ka = kb" by simp
  with a b assms(1) show ?thesis
    by (metis keys_ok_def map_of_is_SomeI option.inject)
qed

lemma dupes_step_mono: "set (dupes st) \<subseteq> set (dupes (merge_step st c))"
  by (auto simp add: merge_step_def Let_def split: option.splits)

lemma dupes_foldl_mono: "set (dupes st) \<subseteq> set (dupes (foldl merge_step st cs))"
proof (induction cs arbitrary: st)
  case Nil
  then show ?case by simp
next
  case (Cons c cs)
  show ?case using dupes_step_mono [of st c] Cons.IH [of "merge_step st c"] by auto
qed

lemma dupes_step_hit:
  assumes "normalize_name (name c) \<noteq> []" "map_of (merged st) (identity_key c) \<noteq> None"
  shows "\<exists>d\<in>set (dupes (merge_step st c)). key d = identity_key c"
  using assms by (auto simp add: merge_step_def Let_def identity_key_def split: option.splits)

text \<open>The second candidate of a group to arrive leaves a collision record under the group's key.\<close>

lemma dupes_second:
  assumes "c1 \<in> set pre" "normalize_name (name c1) \<noteq> []" "normalize_name (name c2) \<noteq> []"
    "identity_key c1 = identity_key c2"
  shows "\<exists>d\<in>set (dupes (merge_loop (pre @ c2 # post))). key d = identity_key c2"
proof -
  have "map_of (merged (merge_loop pre)) (identity_key c2) \<noteq> None"
    using filed_loop [OF assms(1,2)] assms(4) by simp
  then obtain d where d: "d \<in> set (dupes (merge_step (merge_loop pre) c2))" "key d = identity_key c2"
    using dupes_step_hit [OF assms(3)] by blast
  have "merge_loop (pre @ c2 # post) = foldl merge_step (merge_step (merge_loop pre) c2) post"
    by (simp add: merge_loop_def)
  with d dupes_foldl_mono [of "merge_step (merge_loop pre) c2" post] show ?thesis by auto
qed


section \<open>The winner of a two-candidate group\<close>

text \<open>
  C1, as the code has it. Let \<open>a\<close> and \<open>b\<close> be the only two candidates of their key
  group, \<open>a\<close> seen first, exactly one of them carrying an id. If \<open>a\<close> is the one
  without the id, \<open>b\<close> (which carries it) wins. If \<open>a\<close> carries the id, it is kept,
  unless \<open>a\<close> does not come from custom.channels.xml and \<open>b\<close> does: then the id-less
  \<open>b\<close> wins.
\<close>

theorem merge_pair_winner:
  assumes others: "\<forall>c\<in>set (xs @ ys @ zs).
                     normalize_name (name c) = [] \<or> identity_key c \<noteq> identity_key a"
    and na: "normalize_name (name a) \<noteq> []" and nb: "normalize_name (name b) \<noteq> []"
    and same: "identity_key b = identity_key a"
    and one: "(xmltv_id a = []) \<noteq> (xmltv_id b = [])"
  shows "map_of (merged (merge_loop (xs @ a # ys @ b # zs))) (identity_key a)
         = Some (if xmltv_id a = [] then b
                 else if source a \<noteq> custom_source \<and> source b = custom_source then b
                 else a)"
proof -
  let ?k = "identity_key a"
  have ox: "\<forall>c\<in>set xs. normalize_name (name c) = [] \<or> identity_key c \<noteq> ?k"
    and oy: "\<forall>c\<in>set ys. normalize_name (name c) = [] \<or> identity_key c \<noteq> ?k"
    and oz: "\<forall>c\<in>set zs. normalize_name (name c) = [] \<or> identity_key c \<noteq> ?k"
    using others by auto
  have 1: "map_of (merged (merge_loop xs)) ?k = None"
    unfolding merge_loop_def using others_keep [OF ox, of merge_init] by (simp add: merged_init)
  let ?s1 = "merge_step (merge_loop xs) a"
  have 2: "map_of (merged ?s1) ?k = Some a"
    using 1 na by (simp add: merged_step)
  let ?s2 = "foldl merge_step ?s1 ys"
  have 3: "map_of (merged ?s2) ?k = Some a"
    using others_keep [OF oy, of ?s1] 2 by simp
  let ?s3 = "merge_step ?s2 b"
  have 4: "map_of (merged ?s3) ?k = Some (if c_wins a b then b else a)"
    using 3 nb same by (simp add: merged_step)
  have 5: "map_of (merged (foldl merge_step ?s3 zs)) ?k = Some (if c_wins a b then b else a)"
    using others_keep [OF oz, of ?s3] 4 by simp
  have 6: "merge_loop (xs @ a # ys @ b # zs) = foldl merge_step ?s3 zs"
    by (simp add: merge_loop_def)
  have 7: "(if c_wins a b then b else a) =
           (if xmltv_id a = [] then b
            else if source a \<noteq> custom_source \<and> source b = custom_source then b else a)"
    using one by (auto simp add: c_wins_def)
  show ?thesis using 5 6 7 by simp
qed

text \<open>
  An id-less candidate of the custom list, a candidate of another group, then the
  id-carrying candidate of Draft-Keep.csv: the candidate with the id wins.
\<close>

theorem merge_pair_winner_witness:
  "map_of (merged (merge_loop
      ([] @ \<lparr>site = ''b'', xmltv_id = [], name = ''CNN'', source = ''custom.channels.xml''\<rparr>
        # [\<lparr>site = ''c'', xmltv_id = ''bbc1.uk'', name = ''BBC One'', source = ''Draft-Keep.csv''\<rparr>]
        @ \<lparr>site = ''a'', xmltv_id = ''cnn'', name = ''CNN International'', source = ''Draft-Keep.csv''\<rparr>
        # [])))
     ''cnn''
   = Some \<lparr>site = ''a'', xmltv_id = ''cnn'', name = ''CNN International'', source = ''Draft-Keep.csv''\<rparr>"
proof -
  let ?a = "\<lparr>site = ''b'', xmltv_id = [], name = ''CNN'', source = ''custom.channels.xml''\<rparr>"
  let ?o = "\<lparr>site = ''c'', xmltv_id = ''bbc1.uk'', name = ''BBC One'', source = ''Draft-Keep.csv''\<rparr>"
  let ?b = "\<lparr>site = ''a'', xmltv_id = ''cnn'', name = ''CNN International'', source = ''Draft-Keep.csv''\<rparr>"
  have k: "identity_key ?a = ''cnn''" by code_simp
  have h1: "\<forall>c\<in>set ([] @ [?o] @ []). normalize_name (name c) = [] \<or> identity_key c \<noteq> identity_key ?a"
    by code_simp
  have h2: "normalize_name (name ?a) \<noteq> []" by code_simp
  have h3: "normalize_name (name ?b) \<noteq> []" by code_simp
  have h4: "identity_key ?b = identity_key ?a" by code_simp
  have h5: "(xmltv_id ?a = []) \<noteq> (xmltv_id ?b = [])" by simp
  from merge_pair_winner [OF h1 h2 h3 h4 h5] k show ?thesis by simp
qed

text \<open>
  The claim as stated fails when the id-carrying candidate comes first from
  Draft-Keep.csv and the id-less one follows from custom.channels.xml: both have the
  key \<open>cnn\<close>, and the surviving candidate is the one without an id.
\<close>

theorem merge_idless_custom_displaces_id:
  "identity_key \<lparr>site = ''a'', xmltv_id = ''cnn'', name = ''CNN International'', source = ''Draft-Keep.csv''\<rparr>
     = identity_key \<lparr>site = ''b'', xmltv_id = [], name = ''CNN'', source = ''custom.channels.xml''\<rparr>
   \<and> fst (merge_candidates
        [\<lparr>site = ''a'', xmltv_id = ''cnn'', name = ''CNN International'', source = ''Draft-Keep.csv''\<rparr>,
         \<lparr>site = ''b'', xmltv_id = [], name = ''CNN'', source = ''custom.channels.xml''\<rparr>])
     = [\<lparr>site = ''b'', xmltv_id = [], name = ''CNN'', source = ''custom.channels.xml''\<rparr>]"
  by code_simp


section \<open>Identity keys and the unmatched list\<close>

text \<open>
  C4, as the code has it. A candidate is routed to \<open>unmatched\<close> exactly when its
  loose-normalized name is empty, whether or not it carries an id; every other
  candidate is filed in \<open>merged\<close> under its identity key, which is its own id when
  the id is non-empty.
\<close>

theorem unmatched_iff_no_usable_name:
  "unmatched (merge_loop cs) = filter (\<lambda>c. normalize_name (name c) = []) cs
   \<and> (\<forall>c\<in>set cs. normalize_name (name c) \<noteq> [] \<longrightarrow>
          map_of (merged (merge_loop cs)) (identity_key c) \<noteq> None
          \<and> (xmltv_id c \<noteq> [] \<longrightarrow> identity_key c = xmltv_id c))"
proof (intro conjI ballI impI)
  show "unmatched (merge_loop cs) = filter (\<lambda>c. normalize_name (name c) = []) cs"
    by (rule unmatched_loop)
next
  fix c :: candidate assume "c \<in> set cs" "normalize_name (name c) \<noteq> []"
  then show "map_of (merged (merge_loop cs)) (identity_key c) \<noteq> None"
    by (rule filed_loop)
next
  fix c :: candidate assume "xmltv_id c \<noteq> []"
  then show "identity_key c = xmltv_id c" by (simp add: identity_key_def)
qed

theorem unmatched_iff_no_usable_name_witness:
  "unmatched (merge_loop
      [\<lparr>site = ''s'', xmltv_id = ''CNN.us'', name = ''HD'', source = ''custom.channels.xml''\<rparr>,
       \<lparr>site = ''t'', xmltv_id = ''espn.us'', name = ''ESPN HD'', source = ''Draft-Keep.csv''\<rparr>])
     = [\<lparr>site = ''s'', xmltv_id = ''CNN.us'', name = ''HD'', source = ''custom.channels.xml''\<rparr>]
   \<and> map_of (merged (merge_loop
      [\<lparr>site = ''s'', xmltv_id = ''CNN.us'', name = ''HD'', source = ''custom.channels.xml''\<rparr>,
       \<lparr>site = ''t'', xmltv_id = ''espn.us'', name = ''ESPN HD'', source = ''Draft-Keep.csv''\<rparr>]))
      ''espn.us'' \<noteq> None"
proof -
  let ?u = "\<lparr>site = ''s'', xmltv_id = ''CNN.us'', name = ''HD'', source = ''custom.channels.xml''\<rparr>"
  let ?e = "\<lparr>site = ''t'', xmltv_id = ''espn.us'', name = ''ESPN HD'', source = ''Draft-Keep.csv''\<rparr>"
  note t = unmatched_iff_no_usable_name [of "[?u, ?e]"]
  have f: "filter (\<lambda>c. normalize_name (name c) = []) [?u, ?e] = [?u]" by code_simp
  have n: "normalize_name (name ?e) \<noteq> []" by code_simp
  have m: "?e \<in> set [?u, ?e]" by simp
  have i: "xmltv_id ?e \<noteq> []" by simp
  from t f have 1: "unmatched (merge_loop [?u, ?e]) = [?u]" by simp
  from t m n i have a: "map_of (merged (merge_loop [?u, ?e])) (identity_key ?e) \<noteq> None"
    and b: "identity_key ?e = xmltv_id ?e" by blast+
  have 2: "map_of (merged (merge_loop [?u, ?e])) ''espn.us'' \<noteq> None"
    using a unfolding b by simp
  from 1 2 show ?thesis by simp
qed

text \<open>
  The claim as stated fails for a candidate that carries an id and whose name is only
  a quality tag: it goes to \<open>unmatched\<close>.
\<close>

theorem candidate_with_id_unmatched:
  "xmltv_id \<lparr>site = ''s'', xmltv_id = ''CNN.us'', name = ''HD'', source = ''custom.channels.xml''\<rparr> \<noteq> []
   \<and> merge_candidates [\<lparr>site = ''s'', xmltv_id = ''CNN.us'', name = ''HD'', source = ''custom.channels.xml''\<rparr>]
     = ([], [], [\<lparr>site = ''s'', xmltv_id = ''CNN.us'', name = ''HD'', source = ''custom.channels.xml''\<rparr>])"
  by code_simp


section \<open>One key namespace for ids and names\<close>

text \<open>
  C9, as the code has it. Ids and loose-normalized names are keys of the same dict.
  When a candidate with a usable name carries a non-empty id that equals the
  loose-normalized name of an id-less candidate, both have the same identity key, the
  two are never both among the winners, and a collision record is written under that
  key.
\<close>

theorem shared_key_namespace:
  assumes a: "a \<in> set cs" and b: "b \<in> set cs"
    and ida: "xmltv_id a \<noteq> []" and idb: "xmltv_id b = []"
    and eq: "normalize_name (name b) = xmltv_id a"
    and na: "normalize_name (name a) \<noteq> []"
  shows "identity_key a = identity_key b
         \<and> \<not> (a \<in> set (fst (merge_candidates cs)) \<and> b \<in> set (fst (merge_candidates cs)))
         \<and> (\<exists>d\<in>set (fst (snd (merge_candidates cs))). key d = xmltv_id a)"
proof -
  have k: "identity_key a = identity_key b" "identity_key a = xmltv_id a"
    using ida idb eq by (simp_all add: identity_key_def)
  have nb: "normalize_name (name b) \<noteq> []" using eq ida by simp
  have ne: "a \<noteq> b" using ida idb by auto
  have w: "\<not> (a \<in> set (fst (merge_candidates cs)) \<and> b \<in> set (fst (merge_candidates cs)))"
    using winners_same_key [OF keys_ok_loop [of cs], of a b] k(1) ne
    by (auto simp add: merge_candidates_def Let_def)
  from b obtain pre post where cs: "cs = pre @ b # post" by (auto simp add: in_set_conv_decomp)
  with a ne have "a \<in> set pre \<or> a \<in> set post" by auto
  then have "\<exists>d\<in>set (dupes (merge_loop cs)). key d = xmltv_id a"
  proof
    assume "a \<in> set pre"
    from dupes_second [OF this na nb k(1), of post] cs k show ?thesis by simp
  next
    assume "a \<in> set post"
    then obtain p1 p2 where post: "post = p1 @ a # p2" by (auto simp add: in_set_conv_decomp)
    have "b \<in> set (pre @ b # p1)" by simp
    from dupes_second [OF this nb na k(1) [symmetric], of p2] cs post k show ?thesis by simp
  qed
  then have "\<exists>d\<in>set (fst (snd (merge_candidates cs))). key d = xmltv_id a"
    by (simp add: merge_candidates_def Let_def)
  with k w show ?thesis by blast
qed

theorem shared_key_namespace_witness:
  "\<not> (\<lparr>site = ''a'', xmltv_id = ''cnn'', name = ''CNN International'', source = ''Draft-Keep.csv''\<rparr>
        \<in> set (fst (merge_candidates
             [\<lparr>site = ''a'', xmltv_id = ''cnn'', name = ''CNN International'', source = ''Draft-Keep.csv''\<rparr>,
              \<lparr>site = ''b'', xmltv_id = [], name = ''CNN'', source = ''matched_channels.csv''\<rparr>]))
      \<and> \<lparr>site = ''b'', xmltv_id = [], name = ''CNN'', source = ''matched_channels.csv''\<rparr>
        \<in> set (fst (merge_candidates
             [\<lparr>site = ''a'', xmltv_id = ''cnn'', name = ''CNN International'', source = ''Draft-Keep.csv''\<rparr>,
              \<lparr>site = ''b'', xmltv_id = [], name = ''CNN'', source = ''matched_channels.csv''\<rparr>])))
   \<and> list_ex (\<lambda>d. key d = ''cnn'')
        (fst (snd (merge_candidates
             [\<lparr>site = ''a'', xmltv_id = ''cnn'', name = ''CNN International'', source = ''Draft-Keep.csv''\<rparr>,
              \<lparr>site = ''b'', xmltv_id = [], name = ''CNN'', source = ''matched_channels.csv''\<rparr>])))"
proof -
  let ?a = "\<lparr>site = ''a'', xmltv_id = ''cnn'', name = ''CNN International'', source = ''Draft-Keep.csv''\<rparr>"
  let ?b = "\<lparr>site = ''b'', xmltv_id = [], name = ''CNN'', source = ''matched_channels.csv''\<rparr>"
  have h1: "?a \<in> set [?a, ?b]" by simp
  have h2: "?b \<in> set [?a, ?b]" by simp
  have h3: "xmltv_id ?a \<noteq> []" by simp
  have h4: "xmltv_id ?b = []" by simp
  have h5: "normalize_name (name ?b) = xmltv_id ?a" by code_simp
  have h6: "normalize_name (name ?a) \<noteq> []" by code_simp
  from shared_key_namespace [OF h1 h2 h3 h4 h5 h6] show ?thesis by (simp add: list_ex_iff)
qed

text \<open>
  The claim as stated fails when the id-carrying candidate has no usable name: it is
  routed to \<open>unmatched\<close> before any key is computed, so it joins no group and no
  collision record is written.
\<close>

theorem id_candidate_without_name_not_grouped:
  "xmltv_id \<lparr>site = ''a'', xmltv_id = ''cnn'', name = ''HD'', source = ''Draft-Keep.csv''\<rparr> \<noteq> []
   \<and> normalize_name (name \<lparr>site = ''b'', xmltv_id = [], name = ''CNN'', source = ''matched_channels.csv''\<rparr>)
      = xmltv_id \<lparr>site = ''a'', xmltv_id = ''cnn'', name = ''HD'', source = ''Draft-Keep.csv''\<rparr>
   \<and> merge_candidates
        [\<lparr>site = ''a'', xmltv_id = ''cnn'', name = ''HD'', source = ''Draft-Keep.csv''\<rparr>,
         \<lparr>site = ''b'', xmltv_id = [], name = ''CNN'', source = ''matched_channels.csv''\<rparr>]
     = ([\<lparr>site = ''b'', xmltv_id = [], name = ''CNN'', source = ''matched_channels.csv''\<rparr>],
        [],
        [\<lparr>site = ''a'', xmltv_id = ''cnn'', name = ''HD'', source = ''Draft-Keep.csv''\<rparr>])"
  by code_simp


section \<open>Collision records of the merge\<close>

text \<open>
  C3. Each candidate that loses in its key group should leave one collision record
  naming the kept and the dropped candidate. When the newly seen candidate displaces
  the stored one, the record written by \<open>merge_candidates\<close> takes both its kept and
  its dropped fields from the new candidate: here the displaced candidate \<open>CNN\<close> of
  custom.channels.xml appears nowhere in the record.
\<close>

theorem merge_collision_names_winner_twice:
  "merge_candidates
     [\<lparr>site = ''cnn.com'', xmltv_id = [], name = ''CNN'', source = ''custom.channels.xml''\<rparr>,
      \<lparr>site = ''provider-a'', xmltv_id = ''cnn'', name = ''CNN International'',
        source = ''Draft-Keep.csv''\<rparr>]
   = ([\<lparr>site = ''provider-a'', xmltv_id = ''cnn'', name = ''CNN International'',
         source = ''Draft-Keep.csv''\<rparr>],
      [\<lparr>key = ''cnn'', kept_name = ''CNN International'', dropped_name = ''CNN International'',
        kept_source = ''Draft-Keep.csv'', dropped_source = ''Draft-Keep.csv'',
        kept_xmltv_id = ''cnn'', dropped_xmltv_id = ''cnn''\<rparr>],
      [])"
  by code_simp


section \<open>Timeshift tokens\<close>

text \<open>
  C7. The normalizer should delete the timeshift tokens \<open>+1\<close>, \<open>+2\<close>, \<open>east\<close>, \<open>west\<close>
  and \<open>timeshift\<close>. \<open>normalize_name\<close> of merge_custom_channels.py never reads
  \<open>TIMESHIFT_TAGS\<close>: the word \<open>east\<close> stays, and of \<open>+2\<close> only the plus sign goes, so
  neither name normalizes like the name without the token. The normalizer of
  step2_enrich_with_preferred_channels.py deletes \<open>+1\<close> and keeps \<open>east\<close> as well.
\<close>

theorem normalize_name_keeps_timeshift:
  "normalize_name ''BBC One East'' = ''bbc one east'' \<and> normalize_name ''BBC One'' = ''bbc one''
   \<and> normalize_name ''BBC Two +2'' = ''bbc two 2'' \<and> normalize_name ''BBC Two'' = ''bbc two''
   \<and> normalize_name_step2 ''BBC One East'' = ''bbconeeast''
   \<and> normalize_name_step2 ''BBC One'' = ''bbcone''"
  by code_simp

section \<open>Word runs and the tag substitutions\<close>

text \<open>
  For a tag \<open>w\<close> of word characters, \<open>\bw\b\<close> matches at a position exactly when a
  maximal run of word characters starts there and equals \<open>w\<close>. So the substitution
  of a tag removes the runs equal to it and leaves every other run as it is.
\<close>

lemma match_here_word:
  assumes "word_tag w"
  shows "match_here True w pw s = (\<not> pw \<and> takeWhile is_word s = w)"
proof
  assume m: "match_here True w pw s"
  then obtain r where s: "s = w @ r" by (auto simp add: match_here_def prefix_def)
  from assms have lw: "is_word (last w)" "is_word (hd w)" "w \<noteq> []"
    by (auto simp add: word_tag_def list_all_iff)
  from m s lw have r: "r = [] \<or> \<not> is_word (hd r)"
    by (cases r) (auto simp add: match_here_def at_boundary_def)
  from assms have "takeWhile is_word (w @ r) = w @ takeWhile is_word r"
    by (simp add: word_tag_def list_all_iff takeWhile_append2)
  also from r have "takeWhile is_word r = []" by (cases r) auto
  finally have t: "takeWhile is_word s = w" using s by simp
  from m s lw have "\<not> pw" by (cases w) (auto simp add: match_here_def at_boundary_def)
  with t show "\<not> pw \<and> takeWhile is_word s = w" by simp
next
  assume h: "\<not> pw \<and> takeWhile is_word s = w"
  from assms have lw: "is_word (last w)" "w \<noteq> []"
    by (auto simp add: word_tag_def list_all_iff)
  from h have s: "s = w @ dropWhile is_word s" by (metis takeWhile_dropWhile_id)
  then have p: "prefix w s" by (metis prefixI)
  from s have d: "drop (length w) s = dropWhile is_word s" by (metis append_eq_conv_conj)
  have b2: "at_boundary True (dropWhile is_word s)"
  proof (cases "dropWhile is_word s")
    case Nil
    show ?thesis unfolding Nil by (simp add: at_boundary_def)
  next
    case (Cons a l)
    with hd_dropWhile [of is_word s] have "\<not> is_word a" by simp
    then show ?thesis unfolding Cons by (simp add: at_boundary_def)
  qed
  from h lw have "takeWhile is_word s \<noteq> []" by simp
  then have "s \<noteq> []" "is_word (hd s)"
    by (cases s; simp split: if_splits)+
  with h have b1: "at_boundary pw s" by (cases s) (auto simp add: at_boundary_def)
  from lw p d b1 b2 show "match_here True w pw s" by (simp add: match_here_def)
qed


lemma word_tag_ne: "word_tag w \<Longrightarrow> [] \<noteq> w"
  by (auto simp add: word_tag_def)

lemma re_sub_nonword:
  "word_tag w \<Longrightarrow> \<not> is_word d \<Longrightarrow>
     re_sub_lit True w repl pw (d # r) = d # re_sub_lit True w repl False r"
  by (simp add: match_here_word word_tag_ne)

lemma re_sub_copy_run:
  "word_tag w \<Longrightarrow> list_all is_word u \<Longrightarrow>
     re_sub_lit True w repl True (u @ r) = u @ re_sub_lit True w repl True r"
  by (induction u) (simp_all add: match_here_word)

lemma re_sub_pw_irrelevant:
  "word_tag w \<Longrightarrow> r = [] \<or> \<not> is_word (hd r) \<Longrightarrow>
     re_sub_lit True w repl pw r = re_sub_lit True w repl False r"
  by (cases r) (simp_all add: match_here_word word_tag_ne)

lemma wruns_pw_irrelevant:
  "r = [] \<or> \<not> is_word (hd r) \<Longrightarrow> wruns pw r = wruns False r"
  by (cases r) simp_all

lemma wruns_skip_run: "list_all is_word u \<Longrightarrow> wruns True (u @ r) = wruns True r"
  by (induction u) simp_all

lemma re_sub_head_nonword:
  "word_tag w \<Longrightarrow> r = [] \<or> \<not> is_word (hd r) \<Longrightarrow>
     re_sub_lit True w repl pw r = [] \<or> \<not> is_word (hd (re_sub_lit True w repl pw r))"
  by (cases r) (simp_all add: match_here_word word_tag_ne)

lemma takeWhile_re_sub:
  assumes "word_tag w"
  shows "takeWhile is_word (re_sub_lit True w repl True s) = takeWhile is_word s"
proof -
  let ?u = "takeWhile is_word s" and ?r = "dropWhile is_word s"
  have u: "list_all is_word ?u" by (simp add: list_all_iff) (meson set_takeWhileD)
  have r: "?r = [] \<or> \<not> is_word (hd ?r)" using hd_dropWhile [of is_word s] by blast
  have "re_sub_lit True w repl True (?u @ ?r) = ?u @ re_sub_lit True w repl True ?r"
    using assms u by (rule re_sub_copy_run)
  then have e: "re_sub_lit True w repl True s = ?u @ re_sub_lit True w repl True ?r" by simp
  have "takeWhile is_word (re_sub_lit True w repl True ?r) = []"
    using re_sub_head_nonword [OF assms r, of repl True]
    by (cases "re_sub_lit True w repl True ?r") auto
  with u show ?thesis unfolding e by (simp add: list_all_iff takeWhile_append2)
qed

lemma wruns_re_sub:
  assumes w: "word_tag w"
  shows "wruns pw (re_sub_lit True w '' '' pw s) = filter (\<lambda>r. r \<noteq> w) (wruns pw s)"
proof (induction s arbitrary: pw rule: length_induct)
  case (1 s)
  show ?case
  proof (cases s)
    case Nil
    then show ?thesis by simp
  next
    case (Cons c cs)
    show ?thesis
    proof (cases "match_here True w pw (c # cs)")
      case True
      then have npw: "\<not> pw" and tw: "takeWhile is_word (c # cs) = w"
        by (simp_all add: match_here_word [OF w])
      from w have wne: "w \<noteq> []" and aw: "list_all is_word w" by (simp_all add: word_tag_def)
      define r where "r = dropWhile is_word (c # cs)"
      have split: "c # cs = w @ r" unfolding r_def using tw by (metis takeWhile_dropWhile_id)
      from wne split obtain w' where w': "w = c # w'" "cs = w' @ r"
        by (cases w) auto
      have dr: "drop (length w - 1) cs = r" using w' by simp
      have r: "r = [] \<or> \<not> is_word (hd r)"
        unfolding r_def using hd_dropWhile [of is_word "c # cs"] by blast
      have cw: "is_word c" and aw': "list_all is_word w'" using aw w' by simp_all
      have lw: "is_word (last w)" using aw wne by (simp add: list_all_iff)
      have len: "length r < length s" using Cons w' by simp
      let ?o = "re_sub_lit True w '' '' True r"
      have out: "re_sub_lit True w '' '' pw (c # cs) = CHR '' '' # ?o"
        using True lw dr by simp
      have sp: "\<not> is_word CHR '' ''" by (simp add: is_word_def ascii_lowercase_def ascii_uppercase_def digits_def)
      have "wruns pw (CHR '' '' # ?o) = wruns False ?o" using sp by simp
      also have "\<dots> = wruns True ?o"
        using wruns_pw_irrelevant [OF re_sub_head_nonword [OF w r, of "'' ''" True], of True] by simp
      also have "\<dots> = filter (\<lambda>x. x \<noteq> w) (wruns True r)"
        using 1 len by blast
      finally have lhs: "wruns pw (re_sub_lit True w '' '' pw (c # cs)) = filter (\<lambda>x. x \<noteq> w) (wruns True r)"
        using out by simp
      have "wruns pw (c # cs) = w # wruns True cs" using npw cw tw by simp
      also have "wruns True cs = wruns True r" using w'(2) wruns_skip_run [OF aw', of r] by simp
      finally have rhs: "filter (\<lambda>x. x \<noteq> w) (wruns pw (c # cs)) = filter (\<lambda>x. x \<noteq> w) (wruns True r)"
        by simp
      from lhs rhs Cons show ?thesis by simp
    next
      case False
      have len: "length cs < length s" using Cons by simp
      let ?o = "re_sub_lit True w '' '' (is_word c) cs"
      have out: "re_sub_lit True w '' '' pw (c # cs) = c # ?o" using False by simp
      have ih: "wruns (is_word c) ?o = filter (\<lambda>r. r \<noteq> w) (wruns (is_word c) cs)"
        using 1 len by blast
      show ?thesis
      proof (cases "\<not> pw \<and> is_word c")
        case True
        then have t: "takeWhile is_word (c # ?o) = takeWhile is_word (c # cs)"
          using takeWhile_re_sub [OF w, of "'' ''" cs] by simp
        from False True have "takeWhile is_word (c # cs) \<noteq> w"
          by (simp add: match_here_word [OF w])
        with True t ih out Cons show ?thesis by simp
      next
        case False
        with ih out Cons show ?thesis by auto
      qed
    qed
  qed
qed

lemma re_sub_no_run:
  assumes w: "word_tag w"
  shows "w \<notin> set (wruns pw s) \<Longrightarrow> re_sub_lit True w repl pw s = s"
proof (induction s arbitrary: pw)
  case Nil
  then show ?case by simp
next
  case (Cons c cs)
  from w have "w \<noteq> []" by (simp add: word_tag_def)
  then have "\<not> match_here True w pw (c # cs)"
    using Cons.prems by (auto simp add: match_here_word [OF w] split: if_splits)
  moreover have "w \<notin> set (wruns (is_word c) cs)" using Cons.prems by simp
  ultimately show ?case using Cons.IH by simp
qed

lemmas char_classes = lower_char_def upper_char_def is_space_def is_word_def is_punct_def
  is_lower_alnum_def ascii_uppercase_def ascii_lowercase_def digits_def

lemma space_not_word: "is_space c \<Longrightarrow> \<not> is_word c"
  by (auto simp add: char_classes)

lemma blank_not_word: "\<not> is_word CHR '' ''"
  by (simp add: char_classes)

subsection \<open>All tags of a list\<close>

lemma wruns_remove_tags:
  "list_all word_tag tags \<Longrightarrow>
     wruns False (remove_tags tags n) = filter (\<lambda>r. r \<notin> set tags) (wruns False n)"
proof (induction tags arbitrary: n)
  case Nil
  then show ?case by (simp add: remove_tags_def)
next
  case (Cons t ts)
  have "remove_tags (t # ts) n = remove_tags ts (re_sub_lit True t '' '' False n)"
    by (simp add: remove_tags_def)
  with Cons show ?case by (simp add: wruns_re_sub conj_commute)
qed

lemma remove_tags_id:
  "list_all word_tag tags \<Longrightarrow> set tags \<inter> set (wruns False n) = {} \<Longrightarrow> remove_tags tags n = n"
proof (induction tags)
  case Nil
  then show ?case by (simp add: remove_tags_def)
next
  case (Cons t ts)
  then have "re_sub_lit True t '' '' False n = n" by (simp add: re_sub_no_run)
  then have "remove_tags (t # ts) n = remove_tags ts n" by (simp add: remove_tags_def)
  with Cons show ?case by simp
qed

subsection \<open>The punctuation step\<close>

lemma re_sub_chars_map: "re_sub_chars P [d] s = map (\<lambda>c. if P c then d else c) s"
  by (induction s) (simp_all add: re_sub_chars_def)

lemma takeWhile_map_word:
  "\<forall>c\<in>set s. is_word (f c) = is_word c \<and> (is_word c \<longrightarrow> f c = c) \<Longrightarrow>
     takeWhile is_word (map f s) = takeWhile is_word s"
  by (induction s) simp_all

lemma wruns_map:
  "\<forall>c\<in>set s. is_word (f c) = is_word c \<and> (is_word c \<longrightarrow> f c = c) \<Longrightarrow>
     wruns pw (map f s) = wruns pw s"
proof (induction s arbitrary: pw)
  case Nil
  then show ?case by simp
next
  case (Cons c cs)
  then have t: "takeWhile is_word (map f cs) = takeWhile is_word cs"
    by (simp add: takeWhile_map_word)
  from Cons show ?case by (simp add: t)
qed

lemma punct_word: "is_punct c \<Longrightarrow> is_word c \<Longrightarrow> c = CHR ''_''"
  by (auto simp add: char_classes)

lemma wruns_punct:
  assumes "CHR ''_'' \<notin> set s"
  shows "wruns pw (re_sub_chars is_punct '' '' s) = wruns pw s"
  unfolding re_sub_chars_map
proof (rule wruns_map, rule ballI)
  fix c assume "c \<in> set s"
  with assms have "c \<noteq> CHR ''_''" by auto
  then show "is_word (if is_punct c then CHR '' '' else c) = is_word c
       \<and> (is_word c \<longrightarrow> (if is_punct c then CHR '' '' else c) = c)"
    using punct_word [of c] blank_not_word by auto
qed

subsection \<open>Collapsing whitespace\<close>

lemma wruns_dropWhile:
  "(\<And>c. Q c \<Longrightarrow> \<not> is_word c) \<Longrightarrow> wruns False (dropWhile Q s) = wruns False s"
  by (induction s) simp_all

lemma takeWhile_collapse:
  "takeWhile is_word (re_sub_runs is_space '' '' s) = takeWhile is_word s"
  by (induction is_space "'' ''" s rule: re_sub_runs.induct)
     (simp_all add: space_not_word blank_not_word)

lemma wruns_collapse: "wruns pw (re_sub_runs is_space '' '' s) = wruns pw s"
proof (induction is_space "'' ''" s arbitrary: pw rule: re_sub_runs.induct)
  case 1
  then show ?case by simp
next
  case (2 c cs)
  show ?case
  proof (cases "is_space c")
    case True
    then have "wruns pw (re_sub_runs is_space '' '' (c # cs))
        = wruns False (re_sub_runs is_space '' '' (dropWhile is_space cs))"
      by (simp add: blank_not_word)
    also have "\<dots> = wruns False (dropWhile is_space cs)" using 2(1) True by simp
    also have "\<dots> = wruns False cs" by (rule wruns_dropWhile) (rule space_not_word)
    also have "\<dots> = wruns pw (c # cs)" using True by (simp add: space_not_word)
    finally show ?thesis .
  next
    case False
    with 2(2) show ?thesis by (simp add: takeWhile_collapse)
  qed
qed

subsection \<open>Trimming\<close>

lemma takeWhile_append_nonword:
  "\<forall>c\<in>set v. \<not> is_word c \<Longrightarrow> takeWhile is_word (xs @ v) = takeWhile is_word xs"
proof (induction xs)
  case Nil
  then show ?case by (cases v) simp_all
next
  case (Cons a xs)
  then show ?case by simp
qed

lemma wruns_nonword: "\<forall>c\<in>set v. \<not> is_word c \<Longrightarrow> wruns pw v = []"
  by (induction v arbitrary: pw) simp_all

lemma wruns_append_nonword:
  "\<forall>c\<in>set v. \<not> is_word c \<Longrightarrow> wruns pw (xs @ v) = wruns pw xs"
proof (induction xs arbitrary: pw)
  case Nil
  then show ?case by (simp add: wruns_nonword)
next
  case (Cons a xs)
  then show ?case using takeWhile_append_nonword [of v xs] by simp
qed

lemma rstrip_decomp:
  "t = rev (dropWhile P (rev t)) @ rev (takeWhile P (rev t))"
  by (metis rev_append rev_rev_ident takeWhile_dropWhile_id)

lemma wruns_strip: "wruns False (strip s) = wruns False s"
proof -
  let ?t = "dropWhile is_space s"
  let ?u = "rev (dropWhile is_space (rev ?t))" and ?v = "rev (takeWhile is_space (rev ?t))"
  have v: "\<forall>c\<in>set ?v. \<not> is_word c" by (auto dest: set_takeWhileD space_not_word)
  have "wruns False ?t = wruns False (?u @ ?v)" using rstrip_decomp [of ?t is_space] by simp
  also have "\<dots> = wruns False ?u" using v by (rule wruns_append_nonword)
  finally have "wruns False ?u = wruns False ?t" by simp
  also have "\<dots> = wruns False s" by (rule wruns_dropWhile) (rule space_not_word)
  finally show ?thesis by (simp add: strip_def)
qed


section \<open>Idempotence and letter case of the normalizers\<close>

subsection \<open>Characters of the result\<close>

lemma set_re_sub_lit: "set (re_sub_lit lb w '' '' pw s) \<subseteq> insert CHR '' '' (set s)"
proof (induction s arbitrary: pw rule: length_induct)
  case (1 s)
  show ?case
  proof (cases s)
    case Nil
    then show ?thesis by simp
  next
    case (Cons c cs)
    have a: "set (re_sub_lit lb w '' '' p (drop (length w - 1) cs)) \<subseteq> insert CHR '' '' (set cs)" for p
    proof -
      have "length (drop (length w - 1) cs) < length s" using Cons by simp
      with 1 have "set (re_sub_lit lb w '' '' p (drop (length w - 1) cs))
          \<subseteq> insert CHR '' '' (set (drop (length w - 1) cs))" by blast
      then show ?thesis using set_drop_subset [of "length w - 1" cs] by blast
    qed
    have b: "set (re_sub_lit lb w '' '' p cs) \<subseteq> insert CHR '' '' (set cs)" for p
      using 1 Cons by simp
    show ?thesis unfolding Cons using a b by (auto split: if_splits)
  qed
qed

lemma set_remove_tags: "set (remove_tags tags n) \<subseteq> insert CHR '' '' (set n)"
proof (induction tags arbitrary: n)
  case Nil
  then show ?case by (auto simp add: remove_tags_def)
next
  case (Cons t ts)
  have "remove_tags (t # ts) n = remove_tags ts (re_sub_lit True t '' '' False n)"
    by (simp add: remove_tags_def)
  with Cons [of "re_sub_lit True t '' '' False n"] set_re_sub_lit [of True t False n]
  show ?case by auto
qed

lemma set_re_sub_chars:
  "set (re_sub_chars P '' '' s) \<subseteq> insert CHR '' '' {c \<in> set s. \<not> P c}"
  by (auto simp add: re_sub_chars_map)

lemma set_re_sub_runs:
  "set (re_sub_runs P repl s) \<subseteq> set repl \<union> {c \<in> set s. \<not> P c}"
proof (induction P repl s rule: re_sub_runs.induct)
  case (1 P repl)
  then show ?case by simp
next
  case (2 P repl c cs)
  show ?case
  proof (cases "P c")
    case True
    with 2(1) show ?thesis by (auto dest: set_dropWhileD)
  next
    case False
    with 2(2) show ?thesis by auto
  qed
qed

lemma set_strip: "set (strip s) \<subseteq> set s"
proof
  fix x assume "x \<in> set (strip s)"
  then have "x \<in> set (dropWhile is_space (rev (dropWhile is_space s)))" by (simp add: strip_def)
  then have "x \<in> set (rev (dropWhile is_space s))" by (rule set_dropWhileD)
  then have "x \<in> set (dropWhile is_space s)" by simp
  then show "x \<in> set s" by (rule set_dropWhileD)
qed

subsection \<open>Whitespace of the result\<close>

lemma collapse_head:
  "\<not> is_space c \<Longrightarrow> re_sub_runs is_space '' '' (c # cs) = c # re_sub_runs is_space '' '' cs"
  by simp

lemma ws_ok_collapse: "ws_ok (re_sub_runs is_space '' '' s)"
proof (induction is_space "'' ''" s rule: re_sub_runs.induct)
  case 1
  then show ?case by simp
next
  case (2 c cs)
  show ?case
  proof (cases "is_space c")
    case True
    let ?d = "dropWhile is_space cs"
    have "case re_sub_runs is_space '' '' ?d of [] \<Rightarrow> True | d # _ \<Rightarrow> \<not> is_space d"
    proof (cases ?d)
      case Nil
      show ?thesis unfolding Nil by simp
    next
      case (Cons a l)
      with hd_dropWhile [of is_space cs] have "\<not> is_space a" by simp
      then show ?thesis unfolding Cons by simp
    qed
    with True 2(1) show ?thesis by (simp add: is_space_def)
  next
    case False
    with 2(2) show ?thesis by simp
  qed
qed

lemma ws_ok_fixed: "ws_ok t \<Longrightarrow> re_sub_runs is_space '' '' t = t"
proof (induction t)
  case Nil
  then show ?case by simp
next
  case (Cons c cs)
  show ?case
  proof (cases "is_space c")
    case True
    with Cons.prems have c: "c = CHR '' ''" and n: "case cs of [] \<Rightarrow> True | d # _ \<Rightarrow> \<not> is_space d"
      and ok: "ws_ok cs" by simp_all
    from n have "dropWhile is_space cs = cs" by (cases cs) simp_all
    with True c ok Cons.IH show ?thesis by simp
  next
    case False
    with Cons show ?thesis by simp
  qed
qed

lemma ws_ok_tl: "ws_ok (c # cs) \<Longrightarrow> ws_ok cs"
  by simp

lemma ws_ok_dropWhile: "ws_ok s \<Longrightarrow> ws_ok (dropWhile P s)"
  by (induction s) (simp_all del: ws_ok.simps add: ws_ok_tl)

lemma ws_ok_prefix: "ws_ok (xs @ ys) \<Longrightarrow> ws_ok xs"
proof (induction xs)
  case Nil
  then show ?case by simp
next
  case (Cons a xs)
  then show ?case by (cases xs) (auto split: if_splits)
qed

lemma ws_ok_strip: "ws_ok s \<Longrightarrow> ws_ok (strip s)"
proof -
  assume "ws_ok s"
  then have t: "ws_ok (dropWhile is_space s)" by (rule ws_ok_dropWhile)
  let ?t = "dropWhile is_space s"
  from t rstrip_decomp [of ?t is_space]
  have "ws_ok (rev (dropWhile is_space (rev ?t)) @ rev (takeWhile is_space (rev ?t)))" by simp
  then show ?thesis unfolding strip_def by (rule ws_ok_prefix)
qed

lemma strip_fixed:
  "(s = [] \<or> \<not> is_space (hd s)) \<Longrightarrow> (s = [] \<or> \<not> is_space (last s)) \<Longrightarrow> strip s = s"
proof -
  assume h: "s = [] \<or> \<not> is_space (hd s)" and l: "s = [] \<or> \<not> is_space (last s)"
  from h have 1: "dropWhile is_space s = s" by (cases s) auto
  from l have 2: "dropWhile is_space (rev s) = rev s" by (cases "rev s") (auto simp add: last_rev hd_rev)
  show ?thesis by (simp add: strip_def 1 2)
qed

lemma strip_ends:
  "(strip s = [] \<or> \<not> is_space (hd (strip s))) \<and> (strip s = [] \<or> \<not> is_space (last (strip s)))"
proof -
  let ?t = "dropWhile is_space s"
  let ?u = "dropWhile is_space (rev ?t)"
  have l: "?u = [] \<or> \<not> is_space (hd ?u)" using hd_dropWhile [of is_space "rev ?t"] by blast
  have st: "strip s = rev ?u" by (simp add: strip_def)
  have last: "strip s = [] \<or> \<not> is_space (last (strip s))"
    using l unfolding st by (auto simp add: last_rev)
  have "strip s = [] \<or> \<not> is_space (hd (strip s))"
  proof (cases "strip s = []")
    case True
    then show ?thesis by simp
  next
    case False
    have d: "?t = strip s @ rev (takeWhile is_space (rev ?t))"
      unfolding strip_def by (rule rstrip_decomp)
    from d False have ne: "?t \<noteq> []" by (metis append_is_Nil_conv)
    from d False have "hd ?t = hd (strip s)" by (metis hd_append2)
    with ne hd_dropWhile [of is_space s] show ?thesis by simp
  qed
  with last show ?thesis by simp
qed

lemma strip_strip: "strip (strip s) = strip s"
  using strip_ends [of s] by (simp add: strip_fixed)

lemma provider_tags_word: "list_all word_tag PROVIDER_TAGS"
  by (simp add: PROVIDER_TAGS_def word_tag_def char_classes)

lemma quality_tags_word: "list_all word_tag QUALITY_TAGS"
  by (simp add: QUALITY_TAGS_def word_tag_def char_classes)

lemma lower_char_idem: "lower_char (lower_char c) = lower_char c"
  by (simp add: char_classes)

lemma lower_char_blank: "lower_char CHR '' '' = CHR '' ''"
  by (simp add: char_classes)

lemma lower_char_underscore: "lower_char c = CHR ''_'' \<Longrightarrow> c = CHR ''_''"
  by (simp add: char_classes split: if_splits)

lemma blank_not_punct: "\<not> is_punct CHR '' ''"
  by (simp add: char_classes)

subsection \<open>A second pass of the loose normalizer\<close>

lemma loose_idempotent:
  assumes u: "CHR ''_'' \<notin> set x"
  shows "normalize_name (normalize_name x) = normalize_name x"
proof (cases "normalize_name x = []")
  case True
  then show ?thesis by (simp add: normalize_name_def)
next
  case False
  then have xne: "x \<noteq> []" by (auto simp add: normalize_name_def)
  define l where "l = lower x"
  define a where "a = remove_tags QUALITY_TAGS (remove_tags PROVIDER_TAGS l)"
  define b where "b = re_sub_chars is_punct '' '' a"
  define c where "c = re_sub_runs is_space '' '' b"
  define z where "z = strip c"
  have z: "normalize_name x = z"
    using xne by (simp add: normalize_name_def z_def c_def b_def a_def l_def)
  have zne: "z \<noteq> []" using False z by simp
  \<comment> \<open>characters\<close>
  have l_low: "\<forall>ch\<in>set l. lower_char ch = ch"
    by (auto simp add: l_def lower_def lower_char_idem)
  have l_us: "CHR ''_'' \<notin> set l"
  proof
    assume "CHR ''_'' \<in> set l"
    then obtain ch where "ch \<in> set x" "lower_char ch = CHR ''_''"
      by (auto simp add: l_def lower_def)
    with u lower_char_underscore [of ch] show False by simp
  qed
  have a_sub: "set a \<subseteq> insert CHR '' '' (set l)"
    unfolding a_def
    using set_remove_tags [of QUALITY_TAGS "remove_tags PROVIDER_TAGS l"]
      set_remove_tags [of PROVIDER_TAGS l] by auto
  have a_us: "CHR ''_'' \<notin> set a" using a_sub l_us by auto
  have b_sub: "set b \<subseteq> insert CHR '' '' {ch \<in> set a. \<not> is_punct ch}"
    unfolding b_def by (rule set_re_sub_chars)
  have c_sub: "set c \<subseteq> insert CHR '' '' (set b)"
    unfolding c_def using set_re_sub_runs [of is_space "'' ''" b] by auto
  have z_sub: "set z \<subseteq> set c" unfolding z_def by (rule set_strip)
  have z_low: "\<forall>ch\<in>set z. lower_char ch = ch"
    using z_sub c_sub b_sub a_sub l_low lower_char_blank by blast
  have z_np: "\<forall>ch\<in>set z. \<not> is_punct ch"
    using z_sub c_sub b_sub blank_not_punct by blast
  \<comment> \<open>word runs\<close>
  have ra: "wruns False a = filter (\<lambda>r. r \<notin> set QUALITY_TAGS)
                (filter (\<lambda>r. r \<notin> set PROVIDER_TAGS) (wruns False l))"
    unfolding a_def by (simp add: wruns_remove_tags provider_tags_word quality_tags_word)
  have rz: "wruns False z = wruns False a"
    unfolding z_def c_def b_def by (simp add: wruns_strip wruns_collapse wruns_punct a_us)
  have np: "set PROVIDER_TAGS \<inter> set (wruns False z) = {}"
    and nq: "set QUALITY_TAGS \<inter> set (wruns False z) = {}"
    unfolding rz ra by auto
  \<comment> \<open>whitespace\<close>
  have z_ws: "ws_ok z" unfolding z_def c_def by (rule ws_ok_strip) (rule ws_ok_collapse)
  \<comment> \<open>the second pass\<close>
  have 1: "lower z = z" using z_low by (simp add: lower_def map_idI)
  have 2: "remove_tags PROVIDER_TAGS z = z" using provider_tags_word np by (rule remove_tags_id)
  have 3: "remove_tags QUALITY_TAGS z = z" using quality_tags_word nq by (rule remove_tags_id)
  have 4: "re_sub_chars is_punct '' '' z = z"
    using z_np by (simp add: re_sub_chars_map map_idI)
  have 5: "re_sub_runs is_space '' '' z = z" using z_ws by (rule ws_ok_fixed)
  have 6: "strip z = z" unfolding z_def by (rule strip_strip)
  have "normalize_name z = z" using zne by (simp add: normalize_name_def 1 2 3 4 5 6)
  with z show ?thesis by simp
qed

subsection \<open>A second pass of the strict normalizer\<close>

lemma lower_alnum_table:
  "list_all (\<lambda>c. is_word c \<and> \<not> is_space c \<and> lower_char c = c \<and> c \<noteq> CHR ''+'')
     (ascii_lowercase @ digits)"
  by code_simp

lemma lower_alnum_facts:
  assumes "is_lower_alnum c"
  shows "is_word c \<and> \<not> is_space c \<and> lower_char c = c \<and> c \<noteq> CHR ''+''"
proof -
  from assms have "c \<in> set (ascii_lowercase @ digits)" by (auto simp add: is_lower_alnum_def)
  with lower_alnum_table show ?thesis unfolding list_all_iff by blast
qed

lemma re_sub_runs_fixed: "\<forall>c\<in>set s. \<not> P c \<Longrightarrow> re_sub_runs P repl s = s"
  by (induction s) simp_all

lemma re_sub_lit_absent:
  "w \<noteq> [] \<Longrightarrow> hd w \<notin> set s \<Longrightarrow> re_sub_lit lb w repl pw s = s"
proof (induction s arbitrary: pw)
  case Nil
  then show ?case by simp
next
  case (Cons c cs)
  then have "\<not> prefix w (c # cs)" by (cases w) auto
  then have "\<not> match_here lb w pw (c # cs)" by (simp add: match_here_def)
  with Cons show ?case by simp
qed

lemma wruns_all_word:
  "list_all is_word y \<Longrightarrow> wruns False y = (if y = [] then [] else [y])"
proof (cases y)
  case Nil
  then show ?thesis by simp
next
  case (Cons c cs)
  assume a: "list_all is_word y"
  with Cons have t: "takeWhile is_word cs = cs" by (simp add: list_all_iff)
  from a Cons have "wruns True (cs @ []) = wruns True []" by (intro wruns_skip_run) simp
  with a Cons t show ?thesis by simp
qed

lemma strict_on_result:
  assumes y: "list_all is_lower_alnum y"
  shows "normalize_name_step2 y = (if y = ''hd'' then [] else y)"
proof (cases "y = ''hd''")
  case True
  have "normalize_name_step2 ''hd'' = []" by code_simp
  with True show ?thesis by simp
next
  case False
  from y have f: "\<forall>c\<in>set y. is_word c \<and> \<not> is_space c \<and> lower_char c = c \<and> c \<noteq> CHR ''+''"
    by (auto simp add: list_all_iff dest: lower_alnum_facts)
  have 1: "strip y = y"
  proof (rule strip_fixed)
    show "y = [] \<or> \<not> is_space (hd y)" using f by (cases y) auto
    show "y = [] \<or> \<not> is_space (last y)" using f by (cases y rule: rev_cases) auto
  qed
  have 2: "lower y = y" using f by (simp add: lower_def map_idI)
  have w: "word_tag ''hd''" by (simp add: word_tag_def char_classes)
  have "list_all is_word y" using f by (simp add: list_all_iff)
  then have "''hd'' \<notin> set (wruns False y)" using False by (simp add: wruns_all_word)
  with w have 3: "re_sub_lit True ''hd'' [] False y = y" by (rule re_sub_no_run)
  have 4: "re_sub_lit False ''+1'' [] False y = y"
    using f by (intro re_sub_lit_absent) auto
  have 5: "re_sub_runs (\<lambda>c. \<not> is_lower_alnum c) [] y = y"
    using y by (intro re_sub_runs_fixed) (simp add: list_all_iff)
  from False show ?thesis by (simp add: normalize_name_step2_def 1 2 3 4 5)
qed

lemma strict_result_alnum: "list_all is_lower_alnum (normalize_name_step2 x)"
  using set_re_sub_runs [of "\<lambda>c. \<not> is_lower_alnum c" "[]"]
  by (auto simp add: normalize_name_step2_def list_all_iff)

lemma strict_twice:
  "normalize_name_step2 (normalize_name_step2 x)
     = (if normalize_name_step2 x = ''hd'' then [] else normalize_name_step2 x)"
  using strict_result_alnum by (rule strict_on_result)

subsection \<open>Letter case\<close>

lemma is_space_lower: "is_space (lower_char c) = is_space c"
  by (simp add: char_classes)

lemma dropWhile_lower: "dropWhile is_space (lower s) = lower (dropWhile is_space s)"
  by (induction s) (simp_all add: lower_def is_space_lower)

lemma strip_lower: "strip (lower s) = lower (strip s)"
proof -
  have r: "rev (lower t) = lower (rev t)" for t by (simp add: lower_def rev_map)
  show ?thesis by (simp add: strip_def dropWhile_lower r)
qed

lemma lower_Nil: "lower s = [] \<longleftrightarrow> s = []"
  by (simp add: lower_def)

lemma case_insensitive:
  assumes "lower x = lower y"
  shows "normalize_name x = normalize_name y \<and> normalize_name_step2 x = normalize_name_step2 y"
proof -
  from assms have "x = [] \<longleftrightarrow> y = []" by (metis lower_Nil)
  with assms have 1: "normalize_name x = normalize_name y" by (simp add: normalize_name_def)
  from assms have "lower (strip x) = lower (strip y)" by (simp add: strip_lower [symmetric])
  then have 2: "normalize_name_step2 x = normalize_name_step2 y"
    by (simp add: normalize_name_step2_def)
  from 1 2 show ?thesis by simp
qed


text \<open>
  C6, as the code has it. A second pass of the strict normalizer returns the result of
  the first, except when that result is \<open>hd\<close>, which the second pass deletes. A
  second pass of the loose normalizer returns the result of the first for every input
  without an underscore. Both normalizers give the same result for inputs that differ
  only in letter case; in particular \<open>ESPN HD\<close> and \<open>espn\<close> normalize alike.
\<close>

theorem normalizers_second_pass:
  "normalize_name_step2 (normalize_name_step2 x)
     = (if normalize_name_step2 x = ''hd'' then [] else normalize_name_step2 x)
   \<and> (CHR ''_'' \<notin> set x \<longrightarrow> normalize_name (normalize_name x) = normalize_name x)
   \<and> (lower x = lower y \<longrightarrow>
        normalize_name x = normalize_name y \<and> normalize_name_step2 x = normalize_name_step2 y)
   \<and> normalize_name ''ESPN HD'' = normalize_name ''espn''
   \<and> normalize_name_step2 ''ESPN HD'' = normalize_name_step2 ''espn''"
proof -
  have e: "normalize_name ''ESPN HD'' = normalize_name ''espn''
           \<and> normalize_name_step2 ''ESPN HD'' = normalize_name_step2 ''espn''"
    by code_simp
  show ?thesis using strict_twice [of x] loose_idempotent [of x] case_insensitive [of x y] e
    by blast
qed

text \<open>
  Neither normalizer is idempotent on every input. The strict one turns \<open>h d\<close> into
  \<open>hd\<close> and \<open>hd\<close> into the empty string. The loose one does not see the word
  \<open>sky\<close> in \<open>sky_news\<close>, since the underscore is a word character, replaces the
  underscore by a space, and removes \<open>sky\<close> from \<open>sky news\<close> in the next pass.
\<close>

theorem normalizers_not_idempotent:
  "normalize_name_step2 (normalize_name_step2 ''h d'') \<noteq> normalize_name_step2 ''h d''
   \<and> normalize_name (normalize_name ''sky_news'') \<noteq> normalize_name ''sky_news''"
  by code_simp

theorem normalizers_second_pass_witness:
  "normalize_name (normalize_name ''Sky News (HD) +1'') = normalize_name ''Sky News (HD) +1''
   \<and> normalize_name ''Sky News (HD) +1'' = ''news 1''
   \<and> normalize_name ''ESPN hd'' = normalize_name ''espn HD''
   \<and> normalize_name_step2 ''ESPN hd'' = normalize_name_step2 ''espn HD''"
proof -
  have u: "CHR ''_'' \<notin> set ''Sky News (HD) +1''" by simp
  have l: "lower ''ESPN hd'' = lower ''espn HD''" by code_simp
  have v: "normalize_name ''Sky News (HD) +1'' = ''news 1''" by code_simp
  from normalizers_second_pass [of "''Sky News (HD) +1''" "''Sky News (HD) +1''"] u
  have 1: "normalize_name (normalize_name ''Sky News (HD) +1'') = normalize_name ''Sky News (HD) +1''"
    by blast
  from normalizers_second_pass [of "''ESPN hd''" "''espn HD''"] l
  have 2: "normalize_name ''ESPN hd'' = normalize_name ''espn HD''
           \<and> normalize_name_step2 ''ESPN hd'' = normalize_name_step2 ''espn HD''"
    by blast
  from 1 2 v show ?thesis by blast
qed


section \<open>The category filter\<close>

lemma fill_row_keeps_filter_cell:
  "fill_row ids m r ''filtered_out_by_category'' = r ''filtered_out_by_category''"
  by (cases m) (simp_all add: fill_row_def Let_def)

lemma apply_filter_keeps_flag:
  "apply_filter cols ex r cur ''preferred_flag'' = cur ''preferred_flag''"
  by (simp add: apply_filter_def)

text \<open>
  C2. A row whose \<open>preferred_flag\<close> cell is \<open>Y\<close> when the category filter runs is
  left as it is by \<open>apply_filter\<close>, for every exclusion set and whatever its
  categories are: \<open>filtered_out_by_category\<close> is not set and the row is not counted
  as filtered. So a row that leaves its iteration of the enrichment loop with the flag
  \<open>Y\<close> has the \<open>filtered_out_by_category\<close> cell it came with.
\<close>

theorem preferred_never_filtered:
  "(cur ''preferred_flag'' = Some ''Y'' \<longrightarrow>
      apply_filter cols ex r cur = cur \<and> \<not> filter_hits cols ex r cur)
   \<and> (fst (enrich_row cols by_id bnc ids ex r) ''preferred_flag'' = Some ''Y'' \<longrightarrow>
      fst (enrich_row cols by_id bnc ids ex r) ''filtered_out_by_category''
        = r ''filtered_out_by_category''
      \<and> \<not> snd (snd (enrich_row cols by_id bnc ids ex r)))"
proof (intro conjI impI)
  assume "cur ''preferred_flag'' = Some ''Y''"
  then show "apply_filter cols ex r cur = cur" and "\<not> filter_hits cols ex r cur"
    by (simp_all add: apply_filter_def filter_hits_def)
next
  let ?cur = "fill_row ids (fst (match_row by_id bnc r)) r"
  assume "fst (enrich_row cols by_id bnc ids ex r) ''preferred_flag'' = Some ''Y''"
  then have y: "?cur ''preferred_flag'' = Some ''Y''"
    by (simp add: enrich_row_def Let_def apply_filter_keeps_flag)
  then have n: "\<not> filter_hits cols ex r ?cur" by (simp add: filter_hits_def)
  then have "apply_filter cols ex r ?cur = ?cur" by (simp add: apply_filter_def)
  then show "fst (enrich_row cols by_id bnc ids ex r) ''filtered_out_by_category''
        = r ''filtered_out_by_category''"
    by (simp add: enrich_row_def Let_def fill_row_keeps_filter_cell)
  from n show "\<not> snd (snd (enrich_row cols by_id bnc ids ex r))"
    by (simp add: enrich_row_def Let_def)
qed

text \<open>
  A matched row of category \<open>music\<close> under the exclusion set \<open>{music}\<close>: with the
  flag \<open>Y\<close> the filter cell stays empty, with an empty flag it becomes \<open>Y\<close>.
\<close>

theorem preferred_never_filtered_witness:
  "apply_filter [''xmltv_id'', ''pref_categories'', ''preferred_flag'', ''filtered_out_by_category'']
      {''music''}
      [''xmltv_id'' \<mapsto> ''mtv.us'']
      [''xmltv_id'' \<mapsto> ''mtv.us'', ''pref_categories'' \<mapsto> ''Music;Entertainment'',
       ''filtered_out_by_category'' \<mapsto> [], ''preferred_flag'' \<mapsto> ''Y'']
      ''filtered_out_by_category'' = Some []
   \<and> apply_filter [''xmltv_id'', ''pref_categories'', ''preferred_flag'', ''filtered_out_by_category'']
      {''music''}
      [''xmltv_id'' \<mapsto> ''mtv.us'']
      [''xmltv_id'' \<mapsto> ''mtv.us'', ''pref_categories'' \<mapsto> ''Music;Entertainment'',
       ''filtered_out_by_category'' \<mapsto> [], ''preferred_flag'' \<mapsto> []]
      ''filtered_out_by_category'' = Some ''Y''"
proof -
  let ?cols = "[''xmltv_id'', ''pref_categories'', ''preferred_flag'', ''filtered_out_by_category'']"
  let ?r = "[''xmltv_id'' \<mapsto> ''mtv.us'']"
  let ?cur = "[''xmltv_id'' \<mapsto> ''mtv.us'', ''pref_categories'' \<mapsto> ''Music;Entertainment'',
       ''filtered_out_by_category'' \<mapsto> [], ''preferred_flag'' \<mapsto> ''Y'']"
  let ?plain = "[''xmltv_id'' \<mapsto> ''mtv.us'', ''pref_categories'' \<mapsto> ''Music;Entertainment'',
       ''filtered_out_by_category'' \<mapsto> [], ''preferred_flag'' \<mapsto> []]"
  have h: "?cur ''preferred_flag'' = Some ''Y''" by simp
  from preferred_never_filtered
         [where cur = ?cur and cols = ?cols and ex = "{''music''}" and r = ?r] h
  have e: "apply_filter ?cols {''music''} ?r ?cur = ?cur" by blast
  have 1: "apply_filter ?cols {''music''} ?r ?cur ''filtered_out_by_category'' = Some []"
    unfolding e by simp
  have c: "cat_list ?cols ?r ?plain = [''music'', ''entertainment'']" by code_simp
  have 2: "apply_filter ?cols {''music''} ?r ?plain ''filtered_out_by_category'' = Some ''Y''"
    by (simp add: apply_filter_def filter_hits_def c)
  from 1 2 show ?thesis by simp
qed


section \<open>The tiers of the resolver\<close>

lemma fill_row_pref_name:
  "fill_row ids (Some p) r ''pref_name'' = Some (row_get p ''name'')"
  by (simp add: fill_row_def Let_def)

lemma fill_row_pref_id:
  "fill_row ids (Some p) r ''pref_id'' = Some (strip (row_get p ''id''))"
  by (simp add: fill_row_def Let_def)

lemma apply_filter_other:
  "k \<noteq> ''filtered_out_by_category'' \<Longrightarrow> apply_filter cols ex r cur k = cur k"
  by (simp add: apply_filter_def)

lemma match_row_id:
  "strip (row_get r ''xmltv_id'') \<noteq> [] \<Longrightarrow> by_id (strip (row_get r ''xmltv_id'')) = Some p \<Longrightarrow>
     match_row by_id bnc r = (Some p, ById)"
  by (simp add: match_row_def Let_def)

lemma match_row_name:
  "strip (row_get r ''xmltv_id'') = [] \<or> by_id (strip (row_get r ''xmltv_id'')) = None \<Longrightarrow>
     match_row by_id bnc r =
       (if bnc (key_exact r) \<noteq> None then (bnc (key_exact r), ByName)
        else if bnc (key_nocountry r) \<noteq> None then (bnc (key_nocountry r), ByName)
        else (None, NoMatch))"
  by (auto simp add: match_row_def Let_def)

lemma lookup_step_ids: "ids_ok (fst st) \<Longrightarrow> ids_ok (fst (lookup_step st r))"
  by (auto simp add: ids_ok_def lookup_step_def Let_def strip_strip)

lemma lookup_loop_ids: "ids_ok (fst st) \<Longrightarrow> ids_ok (fst (foldl lookup_step st rs))"
  by (induction rs arbitrary: st) (auto simp add: lookup_step_ids)

lemma build_ids: "build_preferred_lookup p = Inr idx \<Longrightarrow> ids_ok (fst idx)"
  using lookup_loop_ids [of "(Map.empty, Map.empty)" "rows p"]
  by (auto simp add: build_preferred_lookup_def ids_ok_def split: if_splits)

text \<open>
  C5. A baseline row whose trimmed \<open>xmltv_id\<close> is non-empty and a key of \<open>by_id\<close>
  is matched to the \<open>by_id\<close> row, and the enriched row carries that row's name and
  id, whatever \<open>by_name_country\<close> holds. Only when the id lookup fails are the names
  tried: first the key with the country, and the key without country only when the
  first is absent. With the index that \<open>build_preferred_lookup\<close> returns, a baseline
  row whose \<open>xmltv_id\<close> cell itself is a key of \<open>by_id\<close> is matched by id.
\<close>

theorem resolver_tier_order:
  "(strip (row_get r ''xmltv_id'') \<noteq> [] \<and> by_id (strip (row_get r ''xmltv_id'')) = Some p
      \<longrightarrow> match_row by_id bnc r = (Some p, ById)
          \<and> fst (enrich_row cols by_id bnc ids ex r) ''pref_name'' = Some (row_get p ''name'')
          \<and> fst (enrich_row cols by_id bnc ids ex r) ''pref_id'' = Some (strip (row_get p ''id'')))
   \<and> ((strip (row_get r ''xmltv_id'') = [] \<or> by_id (strip (row_get r ''xmltv_id'')) = None)
      \<longrightarrow> (bnc (key_exact r) = Some q \<longrightarrow> match_row by_id bnc r = (Some q, ByName))
          \<and> (bnc (key_exact r) = None \<longrightarrow>
               match_row by_id bnc r =
                 (bnc (key_nocountry r), if bnc (key_nocountry r) = None then NoMatch else ByName)))
   \<and> (build_preferred_lookup pf = Inr idx \<and> fst idx (row_get r ''xmltv_id'') = Some p
      \<longrightarrow> match_row (fst idx) (snd idx) r = (Some p, ById))"
proof (intro conjI impI)
  assume h: "strip (row_get r ''xmltv_id'') \<noteq> [] \<and> by_id (strip (row_get r ''xmltv_id'')) = Some p"
  then show m: "match_row by_id bnc r = (Some p, ById)" by (simp add: match_row_id)
  show "fst (enrich_row cols by_id bnc ids ex r) ''pref_name'' = Some (row_get p ''name'')"
    by (simp add: enrich_row_def Let_def m apply_filter_other fill_row_pref_name)
  show "fst (enrich_row cols by_id bnc ids ex r) ''pref_id'' = Some (strip (row_get p ''id''))"
    by (simp add: enrich_row_def Let_def m apply_filter_other fill_row_pref_id)
next
  assume "strip (row_get r ''xmltv_id'') = [] \<or> by_id (strip (row_get r ''xmltv_id'')) = None"
    and "bnc (key_exact r) = Some q"
  then show "match_row by_id bnc r = (Some q, ByName)" by (simp add: match_row_name)
next
  assume "strip (row_get r ''xmltv_id'') = [] \<or> by_id (strip (row_get r ''xmltv_id'')) = None"
    and "bnc (key_exact r) = None"
  then show "match_row by_id bnc r =
      (bnc (key_nocountry r), if bnc (key_nocountry r) = None then NoMatch else ByName)"
    by (simp add: match_row_name)
next
  assume b: "build_preferred_lookup pf = Inr idx \<and> fst idx (row_get r ''xmltv_id'') = Some p"
  then have "build_preferred_lookup pf = Inr idx" by simp
  then have "ids_ok (fst idx)" by (rule build_ids)
  with b have "row_get r ''xmltv_id'' \<noteq> []
      \<and> strip (row_get r ''xmltv_id'') = row_get r ''xmltv_id''"
    by (simp add: ids_ok_def)
  with b show "match_row (fst idx) (snd idx) r = (Some p, ById)" by (simp add: match_row_id)
qed

text \<open>
  Three baseline rows named ESPN against an index in which the id \<open>espn1\<close>, the key
  \<open>(espn, US)\<close> and the key \<open>(espn, None)\<close> lead to three different rows: the row with
  the known id takes the first although its name key is present too, the US row with an
  unknown id the second, the CA row with an unknown id the third. Against the index
  built from a preferred table with the rows ESPN (id \<open>espn1\<close>) and ESPN HD (id
  \<open>other\<close>), the first baseline row is matched by id as well.
\<close>

theorem resolver_tier_order_witness:
  "match_row [''espn1'' \<mapsto> [''id'' \<mapsto> ''espn1'', ''name'' \<mapsto> ''ESPN'']]
      [(''espn'', Some ''US'') \<mapsto> [''id'' \<mapsto> ''other'', ''name'' \<mapsto> ''ESPN HD''],
       (''espn'', None) \<mapsto> [''id'' \<mapsto> ''third'', ''name'' \<mapsto> ''espn'']]
      [''xmltv_id'' \<mapsto> ''espn1'', ''display_name'' \<mapsto> ''ESPN'', ''country'' \<mapsto> ''us'']
     = (Some [''id'' \<mapsto> ''espn1'', ''name'' \<mapsto> ''ESPN''], ById)
   \<and> match_row [''espn1'' \<mapsto> [''id'' \<mapsto> ''espn1'', ''name'' \<mapsto> ''ESPN'']]
      [(''espn'', Some ''US'') \<mapsto> [''id'' \<mapsto> ''other'', ''name'' \<mapsto> ''ESPN HD''],
       (''espn'', None) \<mapsto> [''id'' \<mapsto> ''third'', ''name'' \<mapsto> ''espn'']]
      [''xmltv_id'' \<mapsto> ''espn9'', ''display_name'' \<mapsto> ''ESPN'', ''country'' \<mapsto> ''us'']
     = (Some [''id'' \<mapsto> ''other'', ''name'' \<mapsto> ''ESPN HD''], ByName)
   \<and> match_row [''espn1'' \<mapsto> [''id'' \<mapsto> ''espn1'', ''name'' \<mapsto> ''ESPN'']]
      [(''espn'', Some ''US'') \<mapsto> [''id'' \<mapsto> ''other'', ''name'' \<mapsto> ''ESPN HD''],
       (''espn'', None) \<mapsto> [''id'' \<mapsto> ''third'', ''name'' \<mapsto> ''espn'']]
      [''xmltv_id'' \<mapsto> ''espn9'', ''display_name'' \<mapsto> ''ESPN'', ''country'' \<mapsto> ''ca'']
     = (Some [''id'' \<mapsto> ''third'', ''name'' \<mapsto> ''espn''], ByName)
   \<and> match_row
      (fst (foldl lookup_step (Map.empty, Map.empty)
             [[''id'' \<mapsto> ''other'', ''name'' \<mapsto> ''ESPN HD''],
              [''id'' \<mapsto> ''espn1'', ''name'' \<mapsto> ''ESPN'']]))
      (snd (foldl lookup_step (Map.empty, Map.empty)
             [[''id'' \<mapsto> ''other'', ''name'' \<mapsto> ''ESPN HD''],
              [''id'' \<mapsto> ''espn1'', ''name'' \<mapsto> ''ESPN'']]))
      [''xmltv_id'' \<mapsto> ''espn1'', ''display_name'' \<mapsto> ''ESPN'', ''country'' \<mapsto> ''us'']
     = (Some [''id'' \<mapsto> ''espn1'', ''name'' \<mapsto> ''ESPN''], ById)"
proof -
  let ?p = "[''id'' \<mapsto> ''espn1'', ''name'' \<mapsto> ''ESPN'']"
  let ?q = "[''id'' \<mapsto> ''other'', ''name'' \<mapsto> ''ESPN HD'']"
  let ?t = "[''id'' \<mapsto> ''third'', ''name'' \<mapsto> ''espn'']"
  let ?by_id = "[''espn1'' \<mapsto> ?p]"
  let ?bnc = "[(''espn'', Some ''US'') \<mapsto> ?q, (''espn'', None) \<mapsto> ?t]"
  let ?r1 = "[''xmltv_id'' \<mapsto> ''espn1'', ''display_name'' \<mapsto> ''ESPN'', ''country'' \<mapsto> ''us'']"
  let ?r2 = "[''xmltv_id'' \<mapsto> ''espn9'', ''display_name'' \<mapsto> ''ESPN'', ''country'' \<mapsto> ''us'']"
  let ?r3 = "[''xmltv_id'' \<mapsto> ''espn9'', ''display_name'' \<mapsto> ''ESPN'', ''country'' \<mapsto> ''ca'']"
  let ?pf = "\<lparr>columns = [''id'', ''name''], rows = [?q, ?p]\<rparr>"
  let ?idx = "foldl lookup_step (Map.empty, Map.empty) [?q, ?p]"
  have x1: "strip (row_get ?r1 ''xmltv_id'') = ''espn1''" by code_simp
  have x2: "strip (row_get ?r2 ''xmltv_id'') = ''espn9''" by code_simp
  have x3: "strip (row_get ?r3 ''xmltv_id'') = ''espn9''" by code_simp
  have k2: "key_exact ?r2 = (''espn'', Some ''US'')" by code_simp
  have k3: "key_exact ?r3 = (''espn'', Some ''CA'')" by code_simp
  have n3: "key_nocountry ?r3 = (''espn'', None)" by code_simp
  have a1: "strip (row_get ?r1 ''xmltv_id'') \<noteq> [] \<and> ?by_id (strip (row_get ?r1 ''xmltv_id'')) = Some ?p"
    unfolding x1 by simp
  have a2: "strip (row_get ?r2 ''xmltv_id'') = [] \<or> ?by_id (strip (row_get ?r2 ''xmltv_id'')) = None"
    unfolding x2 by simp
  have a3: "strip (row_get ?r3 ''xmltv_id'') = [] \<or> ?by_id (strip (row_get ?r3 ''xmltv_id'')) = None"
    unfolding x3 by simp
  have b2: "?bnc (key_exact ?r2) = Some ?q" unfolding k2 by simp
  have b3: "?bnc (key_exact ?r3) = None" unfolding k3 by simp
  have c3: "?bnc (key_nocountry ?r3) = Some ?t" unfolding n3 by simp
  have s1: "strip ''espn1'' = ''espn1''" and s2: "strip ''other'' = ''other''" by code_simp+
  have d1: "build_preferred_lookup ?pf = Inr ?idx" by (simp add: build_preferred_lookup_def)
  have d2: "fst ?idx (row_get ?r1 ''xmltv_id'') = Some ?p"
    by (simp add: lookup_step_def Let_def row_get_def s1 s2)
  from resolver_tier_order [where r = ?r1 and by_id = ?by_id and p = ?p and bnc = ?bnc] a1
  have 1: "match_row ?by_id ?bnc ?r1 = (Some ?p, ById)" by blast
  from resolver_tier_order [where r = ?r2 and by_id = ?by_id and bnc = ?bnc and q = ?q] a2 b2
  have 2: "match_row ?by_id ?bnc ?r2 = (Some ?q, ByName)" by blast
  from resolver_tier_order [where r = ?r3 and by_id = ?by_id and bnc = ?bnc] a3 b3
  have "match_row ?by_id ?bnc ?r3 =
      (?bnc (key_nocountry ?r3), if ?bnc (key_nocountry ?r3) = None then NoMatch else ByName)"
    by blast
  then have 3: "match_row ?by_id ?bnc ?r3 = (Some ?t, ByName)" unfolding c3 by simp
  from resolver_tier_order [where r = ?r1 and pf = ?pf and idx = ?idx and p = ?p] d1 d2
  have 4: "match_row (fst ?idx) (snd ?idx) ?r1 = (Some ?p, ById)" by blast
  from 1 2 3 4 show ?thesis by blast
qed


section \<open>Keys of the name index\<close>

lemma add_name_ok:
  "names_ok m \<Longrightarrow> nm \<in> set (row_names r) \<Longrightarrow> names_ok (add_name r country m nm)"
  by (auto simp add: names_ok_def add_name_def Let_def)

lemma add_names_ok:
  "names_ok m \<Longrightarrow> set nms \<subseteq> set (row_names r) \<Longrightarrow> names_ok (foldl (add_name r country) m nms)"
  by (induction nms arbitrary: m) (auto simp add: add_name_ok)

lemma lookup_step_ok: "names_ok (snd st) \<Longrightarrow> names_ok (snd (lookup_step st r))"
  by (simp add: lookup_step_def Let_def add_names_ok)

lemma lookup_loop_ok: "names_ok (snd st) \<Longrightarrow> names_ok (snd (foldl lookup_step st rs))"
  by (induction rs arbitrary: st) (auto simp add: lookup_step_ok)

lemma build_ok: "build_preferred_lookup p = Inr idx \<Longrightarrow> names_ok (snd idx)"
  using lookup_loop_ok [of "(Map.empty, Map.empty)" "rows p"]
  by (auto simp add: build_preferred_lookup_def names_ok_def split: if_splits)

text \<open>
  C10. In the index that \<open>build_preferred_lookup\<close> returns, every key of
  \<open>by_name_country\<close> has a non-empty name component. A preferred row whose name and
  alt-names all normalize to the empty string is stored under no name key, its
  iteration leaves \<open>by_name_country\<close> as it was, and whenever the resolver matches a
  baseline row to it, the match is by id.
\<close>

theorem name_index_keys_nonempty:
  assumes "build_preferred_lookup p = Inr idx"
  shows "(\<forall>k\<in>dom (snd idx). fst k \<noteq> [])
         \<and> (\<forall>r. (\<forall>nm\<in>set (row_names r). normalize_name_step2 nm = []) \<longrightarrow>
                r \<notin> ran (snd idx)
                \<and> (\<forall>st. snd (lookup_step st r) = snd st)
                \<and> (\<forall>b. fst (match_row (fst idx) (snd idx) b) = Some r \<longrightarrow>
                         snd (match_row (fst idx) (snd idx) b) = ById))"
proof -
  have ok: "names_ok (snd idx)" using assms by (rule build_ok)
  have 1: "\<forall>k\<in>dom (snd idx). fst k \<noteq> []"
    using ok by (auto simp add: names_ok_def)
  have 2: "r \<notin> ran (snd idx)" if "\<forall>nm\<in>set (row_names r). normalize_name_step2 nm = []" for r
    using ok that by (auto simp add: names_ok_def ran_def)
  have 3: "snd (lookup_step st r) = snd st"
    if e: "\<forall>nm\<in>set (row_names r). normalize_name_step2 nm = []" for r st
  proof -
    have "foldl (add_name r country) m nms = m" if "set nms \<subseteq> set (row_names r)" for m nms country
      using that e by (induction nms arbitrary: m) (auto simp add: add_name_def)
    then show ?thesis by (simp add: lookup_step_def Let_def)
  qed
  have 4: "snd (match_row (fst idx) (snd idx) b) = ById"
    if "r \<notin> ran (snd idx)" "fst (match_row (fst idx) (snd idx) b) = Some r" for r b
  proof (cases "strip (row_get b ''xmltv_id'') \<noteq> [] \<and> fst idx (strip (row_get b ''xmltv_id'')) \<noteq> None")
    case True
    then show ?thesis by (simp add: match_row_def Let_def)
  next
    case False
    then have m: "match_row (fst idx) (snd idx) b =
        (if snd idx (key_exact b) \<noteq> None then (snd idx (key_exact b), ByName)
         else if snd idx (key_nocountry b) \<noteq> None then (snd idx (key_nocountry b), ByName)
         else (None, NoMatch))"
      by (simp add: match_row_name)
    from that(1) have n: "snd idx k \<noteq> Some r" for k by (meson ranI)
    from that(2) n [of "key_exact b"] n [of "key_nocountry b"] show ?thesis
      unfolding m by (simp split: if_splits)
  qed
  show ?thesis using 1 2 3 4 by blast
qed

text \<open>
  A preferred table of two rows, the first named \<open>HD\<close> with alt-names \<open>+1\<close> and \<open>-\<close>:
  no key with an empty name is in the index, and the first row is stored under no name key.
\<close>

theorem name_index_keys_nonempty_witness:
  "([], Some ''US'') \<notin> dom (snd (foldl lookup_step (Map.empty, Map.empty)
        [[''id'' \<mapsto> ''x1'', ''name'' \<mapsto> ''HD'', ''alt_names'' \<mapsto> ''+1; - '', ''country'' \<mapsto> ''us''],
         [''id'' \<mapsto> ''espn1'', ''name'' \<mapsto> ''ESPN'', ''alt_names'' \<mapsto> [], ''country'' \<mapsto> ''us'']]))
   \<and> [''id'' \<mapsto> ''x1'', ''name'' \<mapsto> ''HD'', ''alt_names'' \<mapsto> ''+1; - '', ''country'' \<mapsto> ''us'']
      \<notin> ran (snd (foldl lookup_step (Map.empty, Map.empty)
        [[''id'' \<mapsto> ''x1'', ''name'' \<mapsto> ''HD'', ''alt_names'' \<mapsto> ''+1; - '', ''country'' \<mapsto> ''us''],
         [''id'' \<mapsto> ''espn1'', ''name'' \<mapsto> ''ESPN'', ''alt_names'' \<mapsto> [], ''country'' \<mapsto> ''us'']]))"
proof -
  let ?r = "[''id'' \<mapsto> ''x1'', ''name'' \<mapsto> ''HD'', ''alt_names'' \<mapsto> ''+1; - '', ''country'' \<mapsto> ''us'']"
  let ?e = "[''id'' \<mapsto> ''espn1'', ''name'' \<mapsto> ''ESPN'', ''alt_names'' \<mapsto> [], ''country'' \<mapsto> ''us'']"
  let ?p = "\<lparr>columns = [''id'', ''name'', ''alt_names'', ''country''], rows = [?r, ?e]\<rparr>"
  let ?idx = "foldl lookup_step (Map.empty, Map.empty) [?r, ?e]"
  have b: "build_preferred_lookup ?p = Inr ?idx"
    by (simp add: build_preferred_lookup_def)
  have n: "\<forall>nm\<in>set (row_names ?r). normalize_name_step2 nm = []" by code_simp
  note t = name_index_keys_nonempty [OF b]
  from t have d: "\<forall>k\<in>dom (snd ?idx). fst k \<noteq> []" by (rule conjunct1)
  have 1: "([], Some ''US'') \<notin> dom (snd ?idx)"
  proof
    assume "([], Some ''US'') \<in> dom (snd ?idx)"
    with d have "fst ([] :: string, Some ''US'') \<noteq> []" by (rule bspec)
    then show False by simp
  qed
  from t n have 2: "?r \<notin> ran (snd ?idx)" by blast
  from 1 2 show ?thesis by simp
qed


section \<open>Completion of the enrichment\<close>

text \<open>Whatever the frames hold, the function ends in one of its three raises.\<close>

lemma enrich_never_returns: "\<exists>e. enrich_baseline_with_preferred b p ex = Inl e"
  by (simp add: enrich_baseline_with_preferred_def build_preferred_lookup_def
        preferred_ids_def series_bool_def Let_def)

text \<open>
  C8. With the structural precondition met, the enrichment should complete and return
  the enriched table. \<open>enrich_baseline_with_preferred\<close> evaluates
  \<open>preferred_df.get("id") or []\<close> before the row loop; the left operand is a Series,
  whose truth value pandas refuses with \<open>ValueError\<close>, so the function raises for
  this well-formed input before any row is processed.
\<close>

theorem enrich_raises_before_rows:
  "enrich_baseline_with_preferred
     \<lparr>columns = [''xmltv_id'', ''display_name''],
      rows = [[''xmltv_id'' \<mapsto> ''espn1'', ''display_name'' \<mapsto> ''ESPN'']]\<rparr>
     \<lparr>columns = [''id'', ''name''],
      rows = [[''id'' \<mapsto> ''espn1'', ''name'' \<mapsto> ''ESPN'']]\<rparr>
     {}
   = Inl Series_truth_ambiguous"
  by (simp add: enrich_baseline_with_preferred_def build_preferred_lookup_def
        preferred_ids_def series_bool_def)

end
